theory Spec2Isabelle
  imports Main "HOL-Library.Sublist"
begin

section \<open>The reactive engine of bup.js (src/src/reactivity.ts)\<close>

text \<open>
  The engine is a heap of signal objects and effect objects, one global slot
  \<open>currentEffect\<close>, and the scheduler's \<open>queue\<close> and \<open>flushing\<close> flag.
  Every function of the source is a function on an explicit state.

  The callbacks that client code hands to the engine (effect bodies, cleanup functions,
  updater functions, the arguments of \<open>ignore\<close>, \<open>scope\<close> and \<open>computed\<close>) are arbitrary
  JavaScript.  They are modelled as trees of engine calls (\<open>prog\<close>): each node names the
  exported function that is called and continues with whatever the call returned, so a
  callback may branch on every value it reads.  A callback may loop or recurse for ever,
  so its execution takes fuel and \<open>Diverge\<close> is the result when the fuel runs out.
\<close>

subsection \<open>Values\<close>

type_synonym sid = nat  \<comment> \<open>identity of a \<open>Signal\<close> object\<close>
type_synonym eid = nat  \<comment> \<open>identity of an \<open>Effect\<close> object; its \<open>run\<close> closure is the job\<close>
type_synonym fid = nat  \<comment> \<open>identity of a function object\<close>
type_synonym scid = nat \<comment> \<open>identity of the \<open>cleanups\<close> array of one \<open>scope\<close> call\<close>

text \<open>
  JavaScript values.  \<open>Object.is\<close> is equality of this representation: primitives are
  compared by value, functions by reference.
\<close>

datatype val = VUndef | VBool bool | VNum int | VStr string | VFun fid

text \<open>\<open>typeof v === "function"\<close>\<close>

primrec is_function :: "val \<Rightarrow> bool" where
  "is_function VUndef = False"
| "is_function (VBool b) = False"
| "is_function (VNum i) = False"
| "is_function (VStr s) = False"
| "is_function (VFun f) = True"

subsection \<open>Client code\<close>

datatype prog =
    Return val
  | Throw val
  | NewSignal val "sid \<Rightarrow> prog"
  | Read sid "val \<Rightarrow> prog"
  | Write sid val prog
  | NewEffect prog "eid \<Rightarrow> prog"
  | Dispose eid prog
  | Computed prog "sid \<Rightarrow> prog"
  | Ignore prog "val \<Rightarrow> prog"
  | Scope "scid \<Rightarrow> prog" "val \<Rightarrow> prog"
  | ScopeDispose scid prog
  | Closure "val \<Rightarrow> prog" "val \<Rightarrow> prog"
  | Call prog "val \<Rightarrow> prog"
  | Try prog "val \<Rightarrow> prog" "val \<Rightarrow> prog"

text \<open>
  \<^item> \<open>Return v\<close>: \<^verbatim>\<open>return v\<close>;  \<open>Throw v\<close>: \<^verbatim>\<open>throw v\<close>.
  \<^item> \<open>NewSignal v k\<close>: \<^verbatim>\<open>const [get, set] = signal(v)\<close>, then \<open>k\<close> with the new signal.
  \<^item> \<open>Read s k\<close>: \<^verbatim>\<open>const v = get()\<close>, then \<open>k v\<close>.
  \<^item> \<open>Write s v k\<close>: \<^verbatim>\<open>set(v)\<close>, then \<open>k\<close>.
  \<^item> \<open>NewEffect fn k\<close>: \<^verbatim>\<open>const dispose = effect(fn)\<close>, then \<open>k\<close> with the disposer.
  \<^item> \<open>Dispose e k\<close>: \<^verbatim>\<open>dispose()\<close>, then \<open>k\<close>.
  \<^item> \<open>Computed fn k\<close>: \<^verbatim>\<open>const get = computed(fn)\<close>, then \<open>k\<close> with the accessor.
  \<^item> \<open>Ignore fn k\<close>: \<^verbatim>\<open>const v = ignore(fn)\<close>, then \<open>k v\<close>.
  \<^item> \<open>Scope fn k\<close>: \<^verbatim>\<open>const v = scope(fn)\<close>; \<open>fn\<close> receives the \<open>dispose\<close> of this scope.
  \<^item> \<open>ScopeDispose sc k\<close>: calls that \<open>dispose\<close>.
  \<^item> \<open>Closure c k\<close>: evaluates a function expression; \<open>k\<close> receives the new function value.
  \<^item> \<open>Call p k\<close>: runs the client code \<open>p\<close> in place and continues with its result.
  \<^item> \<open>Try p h k\<close>: \<^verbatim>\<open>try { v = p } catch (x) { h x }\<close>, and \<open>k v\<close> when \<open>p\<close> returned.
\<close>

subsection \<open>The state\<close>

record signal_obj =
  sig_value :: val
  subs :: "eid list"  \<comment> \<open>a \<open>Set\<close>, in insertion order\<close>

record effect_obj =
  body :: prog  \<comment> \<open>\<open>fn\<close>, the callback given to \<open>effect\<close>\<close>
  deps :: "sid list"  \<comment> \<open>a \<open>Set\<close>, in insertion order\<close>
  cleanups :: "fid list"

text \<open>What the engine did, newest first: a record for the theorems, never read by the engine.\<close>

datatype event =
    ERead "eid option" sid  \<comment> \<open>a getter was called under this tracking context\<close>
  | ESchedule eid  \<comment> \<open>\<open>schedule\<close> was called with the \<open>run\<close> of this effect\<close>
  | EJob eid  \<comment> \<open>\<open>flush\<close> calls \<open>queue[i]\<close>\<close>
  | ERun eid  \<comment> \<open>the \<open>run\<close> of this effect was entered\<close>
  | ECleanup eid fid  \<comment> \<open>\<open>run\<close> calls a cleanup\<close>
  | EBody eid  \<comment> \<open>\<open>run\<close> has dropped the old edges and calls \<open>fn\<close>\<close>
  | EDisposeCleanup eid fid  \<comment> \<open>the disposer calls a cleanup\<close>
  | EDisposed eid  \<comment> \<open>the disposer has dropped the edges\<close>
  | EScopeCleanup eid fid  \<comment> \<open>a closure pushed by \<open>scope\<close> calls a cleanup\<close>

record state =
  signals :: "sid \<Rightarrow> signal_obj"
  nsignals :: nat
  effects :: "eid \<Rightarrow> effect_obj"
  neffects :: nat
  funs :: "fid \<Rightarrow> val \<Rightarrow> prog"
  nfuns :: nat
  scopes :: "scid \<Rightarrow> nat"  \<comment> \<open>length of the \<open>cleanups\<close> array of each \<open>scope\<close> call\<close>
  nscopes :: nat
  currentEffect :: "eid option"
  flushing :: bool
  queue :: "eid list"
  microtasks :: nat  \<comment> \<open>pending \<open>queueMicrotask(flush)\<close> callbacks\<close>
  trace :: "event list"

definition init :: state where
  "init = \<lparr> signals = (\<lambda>_. \<lparr>sig_value = VUndef, subs = []\<rparr>), nsignals = 0,
            effects = (\<lambda>_. \<lparr>body = Return VUndef, deps = [], cleanups = []\<rparr>), neffects = 0,
            funs = (\<lambda>_ _. Return VUndef), nfuns = 0,
            scopes = (\<lambda>_. 0), nscopes = 0,
            currentEffect = None, flushing = False, queue = [], microtasks = 0,
            trace = [] \<rparr>"

datatype 'a result = Ok 'a state | Err val state | Diverge

text \<open>Sequencing: an exception or divergence of the first part ends the whole.\<close>

definition bind_r :: "'a result \<Rightarrow> ('a \<Rightarrow> state \<Rightarrow> 'b result) \<Rightarrow> 'b result" where
  "bind_r r f = (case r of Ok v st \<Rightarrow> f v st | Err x st \<Rightarrow> Err x st | Diverge \<Rightarrow> Diverge)"

text \<open>\<^verbatim>\<open>try { ... } finally { g }\<close> where \<open>g\<close> only assigns.\<close>

definition finally_r :: "'a result \<Rightarrow> (state \<Rightarrow> state) \<Rightarrow> 'a result" where
  "finally_r r g = (case r of Ok v st \<Rightarrow> Ok v (g st) | Err x st \<Rightarrow> Err x (g st) | Diverge \<Rightarrow> Diverge)"

definition log :: "event \<Rightarrow> state \<Rightarrow> state" where
  "log ev st = st\<lparr>trace := ev # trace st\<rparr>"

definition upd_signal :: "sid \<Rightarrow> (signal_obj \<Rightarrow> signal_obj) \<Rightarrow> state \<Rightarrow> state" where
  "upd_signal s f st = st\<lparr>signals := (signals st)(s := f (signals st s))\<rparr>"

definition upd_effect :: "eid \<Rightarrow> (effect_obj \<Rightarrow> effect_obj) \<Rightarrow> state \<Rightarrow> state" where
  "upd_effect e f st = st\<lparr>effects := (effects st)(e := f (effects st e))\<rparr>"

text \<open>\<open>Set.prototype.add\<close>; \<open>Set.prototype.delete\<close> is \<open>removeAll\<close>.\<close>

definition set_add :: "'a \<Rightarrow> 'a list \<Rightarrow> 'a list" where
  "set_add x xs = (if x \<in> set xs then xs else xs @ [x])"

subsection \<open>Scheduler (lines 127-147)\<close>

definition schedule :: "eid \<Rightarrow> state \<Rightarrow> state" where
  "schedule job st0 =
     (let st = log (ESchedule job) st0;
          st1 = (if job \<notin> set (queue st) then st\<lparr>queue := queue st @ [job]\<rparr> else st)
      in if \<not> flushing st1 then st1\<lparr>flushing := True, microtasks := Suc (microtasks st1)\<rparr>
         else st1)"

subsection \<open>Signals (lines 14-41)\<close>

definition signal :: "val \<Rightarrow> state \<Rightarrow> sid \<times> state" where
  "signal initialValue st =
     (nsignals st,
      st\<lparr>signals := (signals st)(nsignals st := \<lparr>sig_value = initialValue, subs = []\<rparr>),
         nsignals := Suc (nsignals st)\<rparr>)"

definition getter :: "sid \<Rightarrow> state \<Rightarrow> val \<times> state" where
  "getter s st0 =
     (let st = log (ERead (currentEffect st0) s) st0;
          st1 = (case currentEffect st of
                   Some e \<Rightarrow> upd_effect e (deps_update (set_add s))
                               (upd_signal s (subs_update (set_add e)) st)
                 | None \<Rightarrow> st)
      in (sig_value (signals st1 s), st1))"

text \<open>Lines 34-37 of the setter: store and notify unless \<open>Object.is\<close> holds.\<close>

definition store :: "sid \<Rightarrow> val \<Rightarrow> state \<Rightarrow> state" where
  "store s newValue st =
     (if sig_value (signals st s) \<noteq> newValue
      then fold schedule (subs (signals st s))
             (upd_signal s (sig_value_update (\<lambda>_. newValue)) st)
      else st)"

text \<open>
  The setter calls \<open>nextValue\<close> when \<open>typeof nextValue === "function"\<close>; \<open>ex\<close> runs client
  code.  \<open>signal.value\<close> is read again after the updater has returned.
\<close>

definition setter ::
  "(prog \<Rightarrow> state \<Rightarrow> val result) \<Rightarrow> sid \<Rightarrow> val \<Rightarrow> state \<Rightarrow> unit result" where
  "setter ex s nextValue st =
     bind_r (case nextValue of
               VFun f \<Rightarrow> ex (funs st f (sig_value (signals st s))) st
             | _ \<Rightarrow> Ok nextValue st)
       (\<lambda>newValue st1. Ok () (store s newValue st1))"

subsection \<open>Effects (lines 53-88)\<close>

text \<open>\<open>fs.forEach(f => f())\<close> over an array of functions; \<open>tag\<close> names the caller in the trace.\<close>

primrec call_all ::
  "(prog \<Rightarrow> state \<Rightarrow> val result) \<Rightarrow> (fid \<Rightarrow> event) \<Rightarrow> fid list \<Rightarrow> state \<Rightarrow> unit result" where
  "call_all ex tag [] st = Ok () st"
| "call_all ex tag (f # fs) st =
     bind_r (ex (funs st f VUndef) (log (tag f) st)) (\<lambda>_. call_all ex tag fs)"

text \<open>\<open>effect.deps.forEach(signal => signal.subs.delete(effect))\<close>\<close>

definition unsubscribe :: "eid \<Rightarrow> state \<Rightarrow> state" where
  "unsubscribe e st = fold (\<lambda>s. upd_signal s (subs_update (removeAll e))) (deps (effects st e)) st"

text \<open>Lines 57-65 of \<open>run\<close>: between the cleanups and the call of \<open>fn\<close>.\<close>

definition run_enter :: "eid \<Rightarrow> state \<Rightarrow> state" where
  "run_enter e st1 =
     (let st2 = upd_effect e (cleanups_update (\<lambda>_. [])) st1;
          st3 = unsubscribe e st2;
          st4 = upd_effect e (deps_update (\<lambda>_. [])) st3
      in log (EBody e) (st4\<lparr>currentEffect := Some e\<rparr>))"

text \<open>Lines 69-71: \<open>if (cleanup && typeof cleanup === "function") effect.cleanups.push(cleanup)\<close>\<close>

definition push_cleanup :: "eid \<Rightarrow> val \<Rightarrow> state \<Rightarrow> state" where
  "push_cleanup e cleanup st =
     (case cleanup of
        VFun f \<Rightarrow> upd_effect e (cleanups_update (\<lambda>cs. cs @ [f])) st
      | _ \<Rightarrow> st)"

definition run :: "(prog \<Rightarrow> state \<Rightarrow> val result) \<Rightarrow> eid \<Rightarrow> state \<Rightarrow> unit result" where
  "run ex e st0 =
     (let st = log (ERun e) st0 in
      bind_r (call_all ex (ECleanup e) (cleanups (effects st e)) st)
        (\<lambda>_ st1.
           let prevEffect = currentEffect st1;
               st5 = run_enter e st1
           in finally_r
                (bind_r (ex (body (effects st5 e)) st5)
                   (\<lambda>cleanup st6. Ok () (push_cleanup e cleanup st6)))
                (\<lambda>st7. st7\<lparr>currentEffect := prevEffect\<rparr>)))"

text \<open>Lines 54 and 76-78: the new \<open>Effect\<close> object.\<close>

definition new_effect :: "prog \<Rightarrow> state \<Rightarrow> state" where
  "new_effect fn st =
     st\<lparr>effects := (effects st)(neffects st := \<lparr>body = fn, deps = [], cleanups = []\<rparr>),
        neffects := Suc (neffects st)\<rparr>"

definition effect :: "(prog \<Rightarrow> state \<Rightarrow> val result) \<Rightarrow> prog \<Rightarrow> state \<Rightarrow> eid result" where
  "effect ex fn st =
     bind_r (run ex (neffects st) (new_effect fn st)) (\<lambda>_ st2. Ok (neffects st) st2)"

text \<open>The function that \<open>effect\<close> returns (lines 82-87).\<close>

definition dispose_exit :: "eid \<Rightarrow> state \<Rightarrow> state" where
  "dispose_exit e st = log (EDisposed e) (unsubscribe e st)"

definition disposer :: "(prog \<Rightarrow> state \<Rightarrow> val result) \<Rightarrow> eid \<Rightarrow> state \<Rightarrow> unit result" where
  "disposer ex e st =
     bind_r (call_all ex (EDisposeCleanup e) (cleanups (effects st e)) st)
       (\<lambda>_ st1. Ok () (dispose_exit e st1))"

subsection \<open>Computed (lines 43-51)\<close>

definition computed :: "(prog \<Rightarrow> state \<Rightarrow> val result) \<Rightarrow> prog \<Rightarrow> state \<Rightarrow> sid result" where
  "computed ex fn st =
     (let (s, st1) = signal VUndef st
      in bind_r (effect ex (Call fn (\<lambda>v. Write s v (Return VUndef))) st1) (\<lambda>_ st2. Ok s st2))"

subsection \<open>ignore and scope (lines 90-125)\<close>

definition ignore :: "(prog \<Rightarrow> state \<Rightarrow> val result) \<Rightarrow> prog \<Rightarrow> state \<Rightarrow> val result" where
  "ignore ex fn st =
     (let prevEffect = currentEffect st;
          st1 = st\<lparr>currentEffect := None\<rparr>
      in finally_r (ex fn st1) (\<lambda>st2. st2\<lparr>currentEffect := prevEffect\<rparr>))"

text \<open>
  The only closure that \<open>scope\<close> ever pushes onto its \<open>cleanups\<close> array is
  \<^verbatim>\<open>() => { currentEffect?.cleanups.forEach(cleanup => cleanup()) }\<close>,
  so the array is modelled by its length.
\<close>

text \<open>Lines 103-105: clear the context, and the new empty \<open>cleanups\<close> array.\<close>

definition scope_enter :: "state \<Rightarrow> state" where
  "scope_enter st =
     st\<lparr>currentEffect := None, scopes := (scopes st)(nscopes st := 0), nscopes := Suc (nscopes st)\<rparr>"

text \<open>Lines 115-119: \<open>if (currentEffect) cleanups.push(...)\<close>\<close>

definition scope_push :: "scid \<Rightarrow> state \<Rightarrow> state" where
  "scope_push sc st =
     (if currentEffect st \<noteq> None then st\<lparr>scopes := (scopes st)(sc := Suc (scopes st sc))\<rparr>
      else st)"

definition scope :: "(prog \<Rightarrow> state \<Rightarrow> val result) \<Rightarrow> (scid \<Rightarrow> prog) \<Rightarrow> state \<Rightarrow> val result" where
  "scope ex fn st =
     (let prevEffect = currentEffect st;
          sc = nscopes st
      in finally_r
           (bind_r (ex (fn sc) (scope_enter st)) (\<lambda>result st2. Ok result (scope_push sc st2)))
           (\<lambda>st3. st3\<lparr>currentEffect := prevEffect\<rparr>))"

definition scope_cleanup :: "(prog \<Rightarrow> state \<Rightarrow> val result) \<Rightarrow> state \<Rightarrow> unit result" where
  "scope_cleanup ex st =
     (case currentEffect st of
        Some e \<Rightarrow> call_all ex (EScopeCleanup e) (cleanups (effects st e)) st
      | None \<Rightarrow> Ok () st)"

text \<open>
  \<open>cleanups.forEach(cleanup => cleanup())\<close> on the array of a scope: \<open>forEach\<close> visits the
  indices below the length it started with and skips those that no longer exist.
\<close>

primrec scope_forEach ::
  "(prog \<Rightarrow> state \<Rightarrow> val result) \<Rightarrow> scid \<Rightarrow> nat \<Rightarrow> nat \<Rightarrow> state \<Rightarrow> unit result" where
  "scope_forEach ex sc 0 i st = Ok () st"
| "scope_forEach ex sc (Suc k) i st =
     bind_r (if i < scopes st sc then scope_cleanup ex st else Ok () st)
       (\<lambda>_. scope_forEach ex sc k (Suc i))"

text \<open>The \<open>dispose\<close> that \<open>scope\<close> passes to its callback (lines 107-110).\<close>

definition scope_clear :: "scid \<Rightarrow> state \<Rightarrow> state" where
  "scope_clear sc st = st\<lparr>scopes := (scopes st)(sc := 0)\<rparr>"

definition scope_dispose ::
  "(prog \<Rightarrow> state \<Rightarrow> val result) \<Rightarrow> scid \<Rightarrow> state \<Rightarrow> unit result" where
  "scope_dispose ex sc st =
     bind_r (scope_forEach ex sc (scopes st sc) 0 st) (\<lambda>_ st1. Ok () (scope_clear sc st1))"

subsection \<open>Running client code\<close>

text \<open>
  One call of client code; \<open>ex\<close> runs the callbacks and continuations.  A handle that was
  never handed out cannot occur in JavaScript; using one is an error of the model's
  client, reported as an exception that changes nothing.
\<close>

definition new_fun :: "(val \<Rightarrow> prog) \<Rightarrow> state \<Rightarrow> state" where
  "new_fun c st = st\<lparr>funs := (funs st)(nfuns st := c), nfuns := Suc (nfuns st)\<rparr>"

definition step :: "(prog \<Rightarrow> state \<Rightarrow> val result) \<Rightarrow> prog \<Rightarrow> state \<Rightarrow> val result" where
  "step ex p st =
     (case p of
        Return v \<Rightarrow> Ok v st
      | Throw x \<Rightarrow> Err x st
      | NewSignal v k \<Rightarrow> (let (s, st1) = signal v st in ex (k s) st1)
      | Read s k \<Rightarrow>
          if s < nsignals st then (let (v, st1) = getter s st in ex (k v) st1)
          else Err (VStr ''no such signal'') st
      | Write s v k \<Rightarrow>
          if s < nsignals st then bind_r (setter ex s v st) (\<lambda>_. ex k)
          else Err (VStr ''no such signal'') st
      | NewEffect fn k \<Rightarrow> bind_r (effect ex fn st) (\<lambda>d. ex (k d))
      | Dispose e k \<Rightarrow>
          if e < neffects st then bind_r (disposer ex e st) (\<lambda>_. ex k)
          else Err (VStr ''no such effect'') st
      | Computed fn k \<Rightarrow> bind_r (computed ex fn st) (\<lambda>g. ex (k g))
      | Ignore fn k \<Rightarrow> bind_r (ignore ex fn st) (\<lambda>v. ex (k v))
      | Scope fn k \<Rightarrow> bind_r (scope ex fn st) (\<lambda>v. ex (k v))
      | ScopeDispose sc k \<Rightarrow>
          if sc < nscopes st then bind_r (scope_dispose ex sc st) (\<lambda>_. ex k)
          else Err (VStr ''no such scope'') st
      | Closure c k \<Rightarrow> ex (k (VFun (nfuns st))) (new_fun c st)
      | Call p' k \<Rightarrow> bind_r (ex p' st) (\<lambda>v. ex (k v))
      | Try p' h k \<Rightarrow>
          (case ex p' st of
             Ok v st1 \<Rightarrow> ex (k v) st1
           | Err x st1 \<Rightarrow> ex (h x) st1
           | Diverge \<Rightarrow> Diverge))"

text \<open>Fuel bounds the depth of nested calls; \<open>Diverge\<close> when it is used up.\<close>

primrec exec :: "nat \<Rightarrow> prog \<Rightarrow> state \<Rightarrow> val result" where
  "exec 0 p st = Diverge"
| "exec (Suc n) p st = step (exec n) p st"

subsection \<open>flush (lines 141-147)\<close>

text \<open>
  The loop re-reads \<open>queue.length\<close> at every step.  It may go on for ever when jobs keep
  creating effects, so it takes fuel \<open>m\<close>.
\<close>

primrec flush_loop ::
  "(prog \<Rightarrow> state \<Rightarrow> val result) \<Rightarrow> nat \<Rightarrow> nat \<Rightarrow> state \<Rightarrow> unit result" where
  "flush_loop ex 0 i st = Diverge"
| "flush_loop ex (Suc m) i st =
     (if i < length (queue st)
      then bind_r (run ex (queue st ! i) (log (EJob (queue st ! i)) st))
             (\<lambda>_. flush_loop ex m (Suc i))
      else Ok () st)"

definition flush :: "(prog \<Rightarrow> state \<Rightarrow> val result) \<Rightarrow> nat \<Rightarrow> state \<Rightarrow> unit result" where
  "flush ex m st =
     bind_r (flush_loop ex m 0 st) (\<lambda>_ st1. Ok () (st1\<lparr>queue := [], flushing := False\<rparr>))"

subsection \<open>The event loop\<close>

text \<open>
  A task runs client code at top level; a microtask is the \<open>flush\<close> that \<open>schedule\<close>
  arranged.  An exception that reaches the top level is reported by the host and the
  event loop goes on.  \<open>None\<close>: the step is not possible, or does not return.
\<close>

datatype op = Task nat prog | Microtask nat

primrec drive_op :: "op \<Rightarrow> state \<Rightarrow> state option" where
  "drive_op (Task n p) st =
     (case exec n p st of Ok v st' \<Rightarrow> Some st' | Err x st' \<Rightarrow> Some st' | Diverge \<Rightarrow> None)"
| "drive_op (Microtask n) st =
     (if microtasks st = 0 then None
      else case flush (exec n) n (st\<lparr>microtasks := microtasks st - 1\<rparr>) of
             Ok v st' \<Rightarrow> Some st' | Err x st' \<Rightarrow> Some st' | Diverge \<Rightarrow> None)"

primrec drive :: "op list \<Rightarrow> state \<Rightarrow> state option" where
  "drive [] st = Some st"
| "drive (a # as) st = (case drive_op a st of Some st' \<Rightarrow> drive as st' | None \<Rightarrow> None)"



section \<open>Specification vocabulary\<close>

subsection \<open>Results and what holds after a call\<close>

text \<open>The value a call returned, the exception it threw, and the state it left.\<close>

primrec result_value :: "'a result \<Rightarrow> 'a option" where
  "result_value (Ok v st) = Some v"
| "result_value (Err x st) = None"
| "result_value Diverge = None"

primrec thrown :: "'a result \<Rightarrow> val option" where
  "thrown (Ok v st) = None"
| "thrown (Err x st) = Some x"
| "thrown Diverge = None"

primrec the_state :: "'a result \<Rightarrow> state" where
  "the_state (Ok v st) = st"
| "the_state (Err x st) = st"
| "the_state Diverge = init"

text \<open>
  \<open>holds Q r\<close>: if the call returned or threw, \<open>Q\<close> is true of the state it left.
  \<open>sat P R ex\<close>: from every state with \<open>P\<close>, client code run by \<open>ex\<close> leaves a state related
  by \<open>R\<close>.  The \<open>vc_\<close> predicates list what the assignments of the engine have to satisfy
  for \<open>sat P R\<close> to hold of every execution; \<open>C e\<close> is the condition under which the \<open>run\<close> of
  \<open>e\<close> is called.
\<close>

definition holds :: "(state \<Rightarrow> bool) \<Rightarrow> 'a result \<Rightarrow> bool" where
  "holds Q r = (case r of Ok v st \<Rightarrow> Q st | Err x st \<Rightarrow> Q st | Diverge \<Rightarrow> True)"

definition sat ::
  "(state \<Rightarrow> bool) \<Rightarrow> (state \<Rightarrow> state \<Rightarrow> bool) \<Rightarrow> (prog \<Rightarrow> state \<Rightarrow> val result) \<Rightarrow> bool" where
  "sat P R ex = (\<forall>p st. P st \<longrightarrow> holds (R st) (ex p st))"

definition vc_order :: "(state \<Rightarrow> bool) \<Rightarrow> (state \<Rightarrow> state \<Rightarrow> bool) \<Rightarrow> (eid \<Rightarrow> state \<Rightarrow> bool) \<Rightarrow> bool" where
  "vc_order P R C =
     ((\<forall>st. P st \<longrightarrow> R st st) \<and>
      (\<forall>st st1 st2. P st \<longrightarrow> R st st1 \<longrightarrow> R st1 st2 \<longrightarrow> R st st2) \<and>
      (\<forall>st st1. P st \<longrightarrow> R st st1 \<longrightarrow> P st1) \<and>
      (\<forall>e st st1. P st \<longrightarrow> C e st \<longrightarrow> R st st1 \<longrightarrow> C e st1))"

definition vc_signal :: "(state \<Rightarrow> bool) \<Rightarrow> (state \<Rightarrow> state \<Rightarrow> bool) \<Rightarrow> bool" where
  "vc_signal P R =
     ((\<forall>v st. P st \<longrightarrow> R st (snd (signal v st))) \<and>
      (\<forall>s st. P st \<longrightarrow> s < nsignals st \<longrightarrow> R st (snd (getter s st))) \<and>
      (\<forall>s v st. P st \<longrightarrow> R st (store s v st)) \<and>
      (\<forall>c st. P st \<longrightarrow> R st (new_fun c st)))"

definition vc_effect :: "(state \<Rightarrow> bool) \<Rightarrow> (state \<Rightarrow> state \<Rightarrow> bool) \<Rightarrow> (eid \<Rightarrow> state \<Rightarrow> bool) \<Rightarrow> bool" where
  "vc_effect P R C =
     ((\<forall>fn st. P st \<longrightarrow> R st (new_effect fn st) \<and> C (neffects st) (new_effect fn st)) \<and>
      (\<forall>e st. P st \<longrightarrow> C e st \<longrightarrow> R st (log (ERun e) st)) \<and>
      (\<forall>e f st. P st \<longrightarrow> C e st \<longrightarrow> R st (log (ECleanup e f) st)) \<and>
      (\<forall>e st. P st \<longrightarrow> C e st \<longrightarrow> P (run_enter e st)) \<and>
      (\<forall>e v st st'. P st \<longrightarrow> C e st \<longrightarrow> R (run_enter e st) st' \<longrightarrow>
         R st ((push_cleanup e v st')\<lparr>currentEffect := currentEffect st\<rparr>)) \<and>
      (\<forall>e st st'. P st \<longrightarrow> C e st \<longrightarrow> R (run_enter e st) st' \<longrightarrow>
         R st (st'\<lparr>currentEffect := currentEffect st\<rparr>)) \<and>
      (\<forall>e f st. P st \<longrightarrow> R st (log (EDisposeCleanup e f) st)) \<and>
      (\<forall>e st. P st \<longrightarrow> R st (dispose_exit e st)))"

definition vc_scope :: "(state \<Rightarrow> bool) \<Rightarrow> (state \<Rightarrow> state \<Rightarrow> bool) \<Rightarrow> bool" where
  "vc_scope P R =
     ((\<forall>st. P st \<longrightarrow> P (st\<lparr>currentEffect := None\<rparr>)) \<and>
      (\<forall>st st'. P st \<longrightarrow> R (st\<lparr>currentEffect := None\<rparr>) st' \<longrightarrow>
         R st (st'\<lparr>currentEffect := currentEffect st\<rparr>)) \<and>
      (\<forall>st. P st \<longrightarrow> P (scope_enter st)) \<and>
      (\<forall>st st'. P st \<longrightarrow> R (scope_enter st) st' \<longrightarrow>
         R st ((scope_push (nscopes st) st')\<lparr>currentEffect := currentEffect st\<rparr>)) \<and>
      (\<forall>st st'. P st \<longrightarrow> R (scope_enter st) st' \<longrightarrow>
         R st (st'\<lparr>currentEffect := currentEffect st\<rparr>)) \<and>
      (\<forall>e f st. P st \<longrightarrow> R st (log (EScopeCleanup e f) st)) \<and>
      (\<forall>sc st. P st \<longrightarrow> R st (scope_clear sc st)))"

definition vc :: "(state \<Rightarrow> bool) \<Rightarrow> (state \<Rightarrow> state \<Rightarrow> bool) \<Rightarrow> (eid \<Rightarrow> state \<Rightarrow> bool) \<Rightarrow> bool" where
  "vc P R C = (vc_order P R C \<and> vc_signal P R \<and> vc_effect P R C \<and> vc_scope P R)"

text \<open>The state after the event loop has taken the steps \<open>ops\<close> from the initial state.\<close>

definition after :: "op list \<Rightarrow> state" where
  "after ops = (case drive ops init of Some st \<Rightarrow> st | None \<Rightarrow> init)"

subsection \<open>What every execution preserves\<close>

text \<open>
  What every execution leaves alone or only extends: the tracking context is restored,
  identities are only allocated, the trace and the queue only grow at the end, and a
  flag that is set stays set with no further flush arranged.
\<close>

definition frame :: "state \<Rightarrow> state \<Rightarrow> bool" where
  "frame st st' =
     (currentEffect st' = currentEffect st \<and>
      nsignals st \<le> nsignals st' \<and> neffects st \<le> neffects st' \<and>
      nfuns st \<le> nfuns st' \<and> nscopes st \<le> nscopes st' \<and>
      (\<exists>evs. trace st' = evs @ trace st) \<and>
      prefix (queue st) (queue st') \<and>
      (flushing st \<longrightarrow> flushing st' \<and> microtasks st' = microtasks st))"

subsection \<open>The scheduler\<close>

text \<open>The jobs that flushes have called, newest first.\<close>

fun jobs :: "event list \<Rightarrow> eid list" where
  "jobs [] = []"
| "jobs (EJob e # tr) = e # jobs tr"
| "jobs (ev # tr) = jobs tr"

definition quiet :: "state \<Rightarrow> state \<Rightarrow> bool" where
  "quiet st st' = (jobs (trace st') = jobs (trace st))"

text \<open>
  The queue holds no job twice, at most one flush is pending, and the flag is set while
  one is pending.
\<close>

definition sched_ok :: "state \<Rightarrow> bool" where
  "sched_ok st = (distinct (queue st) \<and> microtasks st \<le> 1 \<and> (microtasks st = 1 \<longrightarrow> flushing st))"

text \<open>The flag is set and no flush is pending.\<close>

definition stuck :: "state \<Rightarrow> bool" where
  "stuck st = (flushing st \<and> microtasks st = 0)"

subsection \<open>The runs of one effect\<close>

text \<open>The events of the \<open>run\<close> procedure of one effect.\<close>

fun own_run :: "eid \<Rightarrow> event \<Rightarrow> bool" where
  "own_run e (ERun e') = (e' = e)"
| "own_run e (ECleanup e' f) = (e' = e)"
| "own_run e (EBody e') = (e' = e)"
| "own_run e ev = False"

definition run_events :: "eid \<Rightarrow> event list \<Rightarrow> event list" where
  "run_events e tr = filter (own_run e) tr"

text \<open>The signals whose getter was called under the tracking context \<open>e\<close>.\<close>

fun read_by :: "eid \<Rightarrow> event \<Rightarrow> bool" where
  "read_by e (ERead c s) = (c = Some e)"
| "read_by e ev = False"

definition reads :: "eid \<Rightarrow> event list \<Rightarrow> event list" where
  "reads e tr = filter (read_by e) tr"

text \<open>
  What client code leaves alone in an effect \<open>e\<close> that exists already: it never calls the
  \<open>run\<close> of \<open>e\<close>, and unless \<open>e\<close> is the tracking context it reads nothing on behalf of
  \<open>e\<close> and gives \<open>e\<close> no new edge.
\<close>

definition kept :: "eid \<Rightarrow> state \<Rightarrow> state \<Rightarrow> bool" where
  "kept e st st' =
     (currentEffect st' = currentEffect st \<and> neffects st \<le> neffects st' \<and>
      body (effects st' e) = body (effects st e) \<and>
      cleanups (effects st' e) = cleanups (effects st e) \<and>
      run_events e (trace st') = run_events e (trace st) \<and>
      (currentEffect st \<noteq> Some e \<longrightarrow>
         reads e (trace st') = reads e (trace st) \<and>
         deps (effects st' e) = deps (effects st e) \<and>
         (\<forall>s. e \<in> set (subs (signals st' s)) \<longrightarrow> e \<in> set (subs (signals st s)))))"

text \<open>The cleanup phase of \<open>run\<close>: which cleanups were called, in which order.\<close>

definition same_effect :: "eid \<Rightarrow> state \<Rightarrow> state \<Rightarrow> bool" where
  "same_effect e st st' =
     (currentEffect st' = currentEffect st \<and> neffects st \<le> neffects st' \<and>
      body (effects st' e) = body (effects st e) \<and>
      cleanups (effects st' e) = cleanups (effects st e))"


subsection \<open>The dependency graph\<close>

text \<open>
  The trace is read from the newest event back.  \<open>subscribed e s\<close>: a read of \<open>s\<close> under
  the tracking context \<open>e\<close> is found before any event at which \<open>e\<close> dropped its edges
  (the start of a body of \<open>e\<close>, or a disposal of \<open>e\<close>).  \<open>depends e s\<close>: such a read is found
  before the start of a body of \<open>e\<close>.
\<close>

primrec subscribed :: "eid \<Rightarrow> sid \<Rightarrow> event list \<Rightarrow> bool" where
  "subscribed e s [] = False"
| "subscribed e s (ev # tr) =
     (if ev = ERead (Some e) s then True
      else if ev = EBody e \<or> ev = EDisposed e then False
      else subscribed e s tr)"

primrec depends :: "eid \<Rightarrow> sid \<Rightarrow> event list \<Rightarrow> bool" where
  "depends e s [] = False"
| "depends e s (ev # tr) =
     (if ev = ERead (Some e) s then True
      else if ev = EBody e then False
      else depends e s tr)"

definition edges_exact :: "state \<Rightarrow> bool" where
  "edges_exact st =
     (\<forall>e s. (e \<in> set (subs (signals st s))) = subscribed e s (trace st) \<and>
            (s \<in> set (deps (effects st e))) = depends e s (trace st))"

text \<open>The identities in use are allocated.\<close>

definition ids_ok :: "state \<Rightarrow> bool" where
  "ids_ok st =
     ((\<forall>c s. ERead c s \<in> set (trace st) \<longrightarrow> s < nsignals st) \<and>
      (\<forall>e s. ERead (Some e) s \<in> set (trace st) \<longrightarrow> e < neffects st) \<and>
      (\<forall>e. currentEffect st = Some e \<longrightarrow> e < neffects st) \<and>
      (\<forall>e \<in> set (queue st). e < neffects st))"

definition edges_inv :: "state \<Rightarrow> bool" where
  "edges_inv st = (ids_ok st \<and> edges_exact st)"

definition edges_rel :: "state \<Rightarrow> state \<Rightarrow> bool" where
  "edges_rel st st' = (edges_inv st' \<and> neffects st \<le> neffects st')"

subsection \<open>Disposed effects\<close>

text \<open>The events at which the \<open>run\<close> of an effect is scheduled, called or started.\<close>

fun wakes :: "eid \<Rightarrow> event \<Rightarrow> bool" where
  "wakes e (ESchedule e') = (e' = e)"
| "wakes e (EJob e') = (e' = e)"
| "wakes e (ERun e') = (e' = e)"
| "wakes e (EBody e') = (e' = e)"
| "wakes e ev = False"

definition wake_events :: "eid \<Rightarrow> event list \<Rightarrow> event list" where
  "wake_events e tr = filter (wakes e) tr"

text \<open>
  An effect that is subscribed to nothing, is not in the queue and is not running.
\<close>

definition inert :: "eid \<Rightarrow> state \<Rightarrow> bool" where
  "inert e st =
     (e < neffects st \<and> e \<notin> set (queue st) \<and> (\<forall>s. e \<notin> set (subs (signals st s))) \<and>
      currentEffect st \<noteq> Some e)"

text \<open>Between two states: the effect stays inert and none of those events is added.\<close>

definition silent :: "eid \<Rightarrow> state \<Rightarrow> state \<Rightarrow> bool" where
  "silent e st st' = (inert e st' \<and> wake_events e (trace st') = wake_events e (trace st))"



section \<open>Concrete states and client programs\<close>

text \<open>A signal holding 3 and the function \<^verbatim>\<open>prev => prev\<close>.\<close>

definition st_updater :: state where
  "st_updater = new_fun (\<lambda>prev. Return prev) (snd (signal (VNum 3) init))"

text \<open>
  \<^verbatim>\<open>const g = () => 7; const [get, set] = signal(undefined); set(g); return get() === g\<close>
\<close>

definition prog_fun_value :: prog where
  "prog_fun_value =
     Closure (\<lambda>_. Return (VNum 7)) (\<lambda>g.
     NewSignal VUndef (\<lambda>s.
     Write s g (
     Read s (\<lambda>v. Return (VBool (v = g))))))"


text \<open>
  \<^verbatim>\<open>const [n, setN] = signal(0); effect(() => { n() }); setN(1); setN(1)\<close>
\<close>

definition prog_counter :: prog where
  "prog_counter =
     NewSignal (VNum 0) (\<lambda>n.
     NewEffect (Read n (\<lambda>v. Return VUndef)) (\<lambda>d.
     Write n (VNum 1) (
     Write n (VNum 1) (Return VUndef))))"

text \<open>
  Two effects read a signal; the first throws when the signal is not 0.  The signal is
  then written.
\<close>

definition prog_throwing :: prog where
  "prog_throwing =
     NewSignal (VNum 0) (\<lambda>s.
     NewEffect (Read s (\<lambda>v. if v = VNum 0 then Return VUndef else Throw (VStr ''boom''))) (\<lambda>d1.
     NewEffect (Read s (\<lambda>v. Return VUndef)) (\<lambda>d2.
     Write s (VNum 1) (Return VUndef))))"

text \<open>
  \<^verbatim>\<open>const c = () => {}; const [s, set] = signal(0); effect(() => { s(); return c }); set(1)\<close>
\<close>

definition prog_cleanup :: prog where
  "prog_cleanup =
     Closure (\<lambda>_. Return VUndef) (\<lambda>c.
     NewSignal (VNum 0) (\<lambda>s.
     NewEffect (Read s (\<lambda>_. Return c)) (\<lambda>d.
     Write s (VNum 1) (Return VUndef))))"

text \<open>
  Two signals holding 1 and 2, and an effect at the point of its first run where its
  body has read the first signal.
\<close>

definition st_inside :: state where
  "st_inside =
     snd (getter 0 (run_enter 0 (log (ERun 0) (new_effect (Return VUndef)
       (snd (signal (VNum 2) (snd (signal (VNum 1) init))))))))"



text \<open>
  \<^verbatim>\<open>const c = () => {}; const [s, set] = signal(0); effect(() => { s(); return c })\<close>
\<close>

definition prog_subscribed :: prog where
  "prog_subscribed =
     Closure (\<lambda>_. Return VUndef) (\<lambda>c.
     NewSignal (VNum 0) (\<lambda>s.
     NewEffect (Read s (\<lambda>_. Return c)) (\<lambda>d. Return VUndef)))"

text \<open>
  \<^verbatim>\<open>const [s, set] = signal(0); const dispose = effect(() => { s() }); set(1); dispose()\<close>
\<close>

definition prog_zombie :: prog where
  "prog_zombie =
     NewSignal (VNum 0) (\<lambda>s.
     NewEffect (Read s (\<lambda>_. Return VUndef)) (\<lambda>d.
     Write s (VNum 1) (
     Dispose d (Return VUndef))))"







text \<open>
  The state after \<^verbatim>\<open>const c = () => {}; const [s, set] = signal(0); effect(() => { s(); return c })\<close>,
  and the function \<^verbatim>\<open>prev => prev\<close>.
\<close>

definition st_subscribed :: state where
  "st_subscribed = new_fun (\<lambda>prev. Return prev) (after [Task 5 prog_subscribed])"


text \<open>
  \<^verbatim>\<open>const c = () => {}; const [s, set] = signal(0)
  const dispose = effect(() => { s(); return c }); set(1); dispose()\<close>
\<close>

definition prog_cleanup_dispose :: prog where
  "prog_cleanup_dispose =
     Closure (\<lambda>_. Return VUndef) (\<lambda>c.
     NewSignal (VNum 0) (\<lambda>s.
     NewEffect (Read s (\<lambda>_. Return c)) (\<lambda>d.
     Write s (VNum 1) (
     Dispose d (Return VUndef)))))"

text \<open>
  \<^verbatim>\<open>const c = () => { throw "boom" }; const [s, set] = signal(0)
  effect(() => { s(); return c }); set(1)\<close>
\<close>

definition prog_cleanup_throws :: prog where
  "prog_cleanup_throws =
     Closure (\<lambda>_. Throw (VStr ''boom'')) (\<lambda>c.
     NewSignal (VNum 0) (\<lambda>s.
     NewEffect (Read s (\<lambda>_. Return c)) (\<lambda>d.
     Write s (VNum 1) (Return VUndef))))"




section \<open>Proof rules for the engine\<close>

text \<open>
  Evaluation looks a function update up where it is applied, so that the heaps of an
  evaluated state are chains of updates with evaluated entries.
\<close>

lemma fun_upd_code [code]: "(f(x := y)) z = (if z = x then y else f z)"
  by simp

lemma bind_r_simps [simp]:
  "bind_r (Ok v st) f = f v st"
  "bind_r (Err x st) f = Err x st"
  "bind_r Diverge f = Diverge"
  by (simp_all add: bind_r_def)

lemma finally_r_simps [simp]:
  "finally_r (Ok v st) g = Ok v (g st)"
  "finally_r (Err x st) g = Err x (g st)"
  "finally_r Diverge g = Diverge"
  by (simp_all add: finally_r_def)

lemma holds_simps [simp]:
  "holds Q (Ok v st) = Q st"
  "holds Q (Err x st) = Q st"
  "holds Q Diverge = True"
  by (simp_all add: holds_def)

lemma holds_bind:
  assumes "holds Q r"
      and "\<And>v st1. r = Ok v st1 \<Longrightarrow> Q st1 \<Longrightarrow> holds Q (f v st1)"
  shows "holds Q (bind_r r f)"
  using assms by (cases r) auto

lemma holds_finally:
  assumes "holds Q1 r" and "\<And>st1. Q1 st1 \<Longrightarrow> Q (g st1)"
  shows "holds Q (finally_r r g)"
  using assms by (cases r) auto

lemma holds_mono:
  assumes "holds Q1 r" and "\<And>st1. Q1 st1 \<Longrightarrow> Q st1"
  shows "holds Q r"
  using assms by (cases r) auto

lemma vc_refl: "vc P R C \<Longrightarrow> P st \<Longrightarrow> R st st"
  by (simp add: vc_def vc_order_def)

lemma vc_trans: "vc P R C \<Longrightarrow> P st \<Longrightarrow> R st st1 \<Longrightarrow> R st1 st2 \<Longrightarrow> R st st2"
  unfolding vc_def vc_order_def by blast

lemma vc_stable: "vc P R C \<Longrightarrow> P st \<Longrightarrow> R st st1 \<Longrightarrow> P st1"
  unfolding vc_def vc_order_def by blast

lemma vc_stableC: "vc P R C \<Longrightarrow> P st \<Longrightarrow> C e st \<Longrightarrow> R st st1 \<Longrightarrow> C e st1"
  unfolding vc_def vc_order_def by blast

lemma holds_trans:
  assumes "vc P R C" "P st" "R st st1" "holds (R st1) r"
  shows "holds (R st) r"
  using assms(4) vc_trans[OF assms(1,2,3)] by (cases r) auto

lemma satD: "sat P R ex \<Longrightarrow> P st \<Longrightarrow> holds (R st) (ex p st)"
  by (simp add: sat_def)

text \<open>A step followed by client code.\<close>

lemma holds_then:
  assumes vc: "vc P R C" and ex: "sat P R ex" and P: "P st" and R: "R st st1"
  shows "holds (R st) (ex p st1)"
  by (rule holds_trans[OF vc P R]) (rule satD[OF ex vc_stable[OF vc P R]])

lemma sat_call_all:
  assumes vc: "vc P R C" and ex: "sat P R ex"
      and tag: "\<And>f st'. P st' \<Longrightarrow> Q st' \<Longrightarrow> R st' (log (tag f) st')"
      and Q: "\<And>st1 st2. P st1 \<Longrightarrow> Q st1 \<Longrightarrow> R st1 st2 \<Longrightarrow> Q st2"
  shows "P st \<Longrightarrow> Q st \<Longrightarrow> holds (R st) (call_all ex tag fs st)"
proof (induction fs arbitrary: st)
  case Nil
  then show ?case by (simp add: vc_refl[OF vc])
next
  case (Cons f fs)
  have R1: "R st (log (tag f) st)" using tag Cons.prems by simp
  have h1: "holds (R st) (ex (funs st f VUndef) (log (tag f) st))"
    by (rule holds_then[OF vc ex Cons.prems(1) R1])
  show ?case
    unfolding call_all.simps
  proof (rule holds_bind[OF h1])
    fix v st1 assume R2: "R st st1"
    have P1: "P st1" by (rule vc_stable[OF vc Cons.prems(1) R2])
    have Q1: "Q st1" by (rule Q[OF Cons.prems(1,2) R2])
    show "holds (R st) (call_all ex tag fs st1)"
      by (rule holds_trans[OF vc Cons.prems(1) R2 Cons.IH[OF P1 Q1]])
  qed
qed

lemma sat_setter:
  assumes vc: "vc P R C" and ex: "sat P R ex" and P: "P st"
  shows "holds (R st) (setter ex s v st)"
proof -
  have store: "\<And>s v st. P st \<Longrightarrow> R st (store s v st)"
    using vc by (simp add: vc_def vc_signal_def)
  have h1: "holds (R st) (case v of VFun f \<Rightarrow> ex (funs st f (sig_value (signals st s))) st | _ \<Rightarrow> Ok v st)"
    using satD[OF ex P] vc_refl[OF vc P] by (cases v) auto
  show ?thesis
    unfolding setter_def
  proof (rule holds_bind[OF h1])
    fix nv st1 assume R1: "R st st1"
    have "R st1 (store s nv st1)" by (rule store[OF vc_stable[OF vc P R1]])
    then show "holds (R st) (Ok () (store s nv st1))"
      using vc_trans[OF vc P R1] by simp
  qed
qed

lemma sat_run:
  assumes vc: "vc P R C" and ex: "sat P R ex" and P: "P st" and C: "C e st"
  shows "holds (R st) (run ex e st)"
proof -
  let ?st0 = "log (ERun e) st"
  have eff: "vc_effect P R C" using vc by (simp add: vc_def)
  have R0: "R st ?st0" using eff P C by (simp add: vc_effect_def)
  have P0: "P ?st0" by (rule vc_stable[OF vc P R0])
  have C0: "C e ?st0" by (rule vc_stableC[OF vc P C R0])
  have h1: "holds (R ?st0) (call_all ex (ECleanup e) (cleanups (effects ?st0 e)) ?st0)"
  proof (rule sat_call_all[where Q="C e" and tag="ECleanup e", OF vc ex _ _ P0 C0])
    fix f st' assume "P st'" "C e st'"
    then show "R st' (log (ECleanup e f) st')" using eff by (simp add: vc_effect_def)
  next
    fix st1 st2 assume "P st1" "C e st1" "R st1 st2"
    then show "C e st2" by (rule vc_stableC[OF vc])
  qed
  have "holds (R ?st0) (run ex e st)"
    unfolding run_def Let_def
  proof (rule holds_bind[OF h1])
    fix u st1 assume R1: "R ?st0 st1"
    have P1: "P st1" by (rule vc_stable[OF vc P0 R1])
    have C1: "C e st1" by (rule vc_stableC[OF vc P0 C0 R1])
    have P5: "P (run_enter e st1)" using eff P1 C1 by (simp add: vc_effect_def)
    have hb: "holds (R (run_enter e st1)) (ex (body (effects (run_enter e st1) e)) (run_enter e st1))"
      by (rule satD[OF ex P5])
    have ok: "\<And>v st'. R (run_enter e st1) st' \<Longrightarrow>
         R st1 ((push_cleanup e v st')\<lparr>currentEffect := currentEffect st1\<rparr>)"
      using eff P1 C1 unfolding vc_effect_def by blast
    have er: "\<And>st'. R (run_enter e st1) st' \<Longrightarrow> R st1 (st'\<lparr>currentEffect := currentEffect st1\<rparr>)"
      using eff P1 C1 unfolding vc_effect_def by blast
    have "holds (R st1)
       (finally_r (bind_r (ex (body (effects (run_enter e st1) e)) (run_enter e st1))
                     (\<lambda>cleanup st6. Ok () (push_cleanup e cleanup st6)))
          (\<lambda>st7. st7\<lparr>currentEffect := currentEffect st1\<rparr>))"
      using hb ok er
      by (cases "ex (body (effects (run_enter e st1) e)) (run_enter e st1)") auto
    then show "holds (R ?st0)
       (finally_r (bind_r (ex (body (effects (run_enter e st1) e)) (run_enter e st1))
                     (\<lambda>cleanup st6. Ok () (push_cleanup e cleanup st6)))
          (\<lambda>st7. st7\<lparr>currentEffect := currentEffect st1\<rparr>))"
      by (rule holds_trans[OF vc P0 R1])
  qed
  then show ?thesis by (rule holds_trans[OF vc P R0])
qed

lemma sat_effect:
  assumes vc: "vc P R C" and ex: "sat P R ex" and P: "P st"
  shows "holds (R st) (effect ex fn st)"
proof -
  have eff: "vc_effect P R C" using vc by (simp add: vc_def)
  have R1: "R st (new_effect fn st)" and C1: "C (neffects st) (new_effect fn st)"
    using eff P by (simp_all add: vc_effect_def)
  have P1: "P (new_effect fn st)" by (rule vc_stable[OF vc P R1])
  have "holds (R (new_effect fn st)) (run ex (neffects st) (new_effect fn st))"
    by (rule sat_run[OF vc ex P1 C1])
  then have "holds (R st) (run ex (neffects st) (new_effect fn st))"
    by (rule holds_trans[OF vc P R1])
  then show ?thesis
    unfolding effect_def by (cases "run ex (neffects st) (new_effect fn st)") auto
qed

lemma sat_disposer:
  assumes vc: "vc P R C" and ex: "sat P R ex" and P: "P st"
  shows "holds (R st) (disposer ex e st)"
proof -
  have eff: "vc_effect P R C" using vc by (simp add: vc_def)
  have h1: "holds (R st) (call_all ex (EDisposeCleanup e) (cleanups (effects st e)) st)"
  proof (rule sat_call_all[where Q="\<lambda>_. True" and tag="EDisposeCleanup e", OF vc ex _ _ P])
    fix f st' assume "P st'"
    then show "R st' (log (EDisposeCleanup e f) st')" using eff by (simp add: vc_effect_def)
  qed simp_all
  show ?thesis
    unfolding disposer_def
  proof (rule holds_bind[OF h1])
    fix u st1 assume R1: "R st st1"
    have "R st1 (dispose_exit e st1)"
      using eff vc_stable[OF vc P R1] by (simp add: vc_effect_def)
    then show "holds (R st) (Ok () (dispose_exit e st1))"
      using vc_trans[OF vc P R1] by simp
  qed
qed

lemma sat_computed:
  assumes vc: "vc P R C" and ex: "sat P R ex" and P: "P st"
  shows "holds (R st) (computed ex fn st)"
proof -
  have R1: "R st (snd (signal VUndef st))" using vc P by (simp add: vc_def vc_signal_def)
  have P1: "P (snd (signal VUndef st))" by (rule vc_stable[OF vc P R1])
  have "holds (R st) (effect ex (Call fn (\<lambda>v. Write (fst (signal VUndef st)) v (Return VUndef))) (snd (signal VUndef st)))"
    by (rule holds_trans[OF vc P R1 sat_effect[OF vc ex P1]])
  then show ?thesis
    unfolding computed_def
    by (cases "effect ex (Call fn (\<lambda>v. Write (fst (signal VUndef st)) v (Return VUndef))) (snd (signal VUndef st))")
       (auto simp: split_def)
qed

lemma sat_ignore:
  assumes vc: "vc P R C" and ex: "sat P R ex" and P: "P st"
  shows "holds (R st) (ignore ex fn st)"
proof -
  have sc: "vc_scope P R" using vc by (simp add: vc_def)
  have P1: "P (st\<lparr>currentEffect := None\<rparr>)" using sc P by (simp add: vc_scope_def)
  have ex1: "\<And>st'. R (st\<lparr>currentEffect := None\<rparr>) st' \<Longrightarrow> R st (st'\<lparr>currentEffect := currentEffect st\<rparr>)"
    using sc P unfolding vc_scope_def by blast
  show ?thesis
    unfolding ignore_def Let_def
    by (rule holds_finally[OF satD[OF ex P1]]) (rule ex1)
qed

lemma sat_scope:
  assumes vc: "vc P R C" and ex: "sat P R ex" and P: "P st"
  shows "holds (R st) (scope ex fn st)"
proof -
  have sc: "vc_scope P R" using vc by (simp add: vc_def)
  have P1: "P (scope_enter st)" using sc P by (simp add: vc_scope_def)
  have ok: "\<And>st'. R (scope_enter st) st' \<Longrightarrow>
      R st ((scope_push (nscopes st) st')\<lparr>currentEffect := currentEffect st\<rparr>)"
    using sc P unfolding vc_scope_def by blast
  have er: "\<And>st'. R (scope_enter st) st' \<Longrightarrow> R st (st'\<lparr>currentEffect := currentEffect st\<rparr>)"
    using sc P unfolding vc_scope_def by blast
  show ?thesis
    unfolding scope_def Let_def
    using satD[OF ex P1, of "fn (nscopes st)"] ok er
    by (cases "ex (fn (nscopes st)) (scope_enter st)") auto
qed

lemma sat_scope_cleanup:
  assumes vc: "vc P R C" and ex: "sat P R ex" and P: "P st"
  shows "holds (R st) (scope_cleanup ex st)"
proof (cases "currentEffect st")
  case None
  then show ?thesis by (simp add: scope_cleanup_def vc_refl[OF vc P])
next
  case (Some e)
  have sc: "vc_scope P R" using vc by (simp add: vc_def)
  have "holds (R st) (call_all ex (EScopeCleanup e) (cleanups (effects st e)) st)"
  proof (rule sat_call_all[where Q="\<lambda>_. True" and tag="EScopeCleanup e", OF vc ex _ _ P])
    fix f st' assume "P st'"
    then show "R st' (log (EScopeCleanup e f) st')" using sc by (simp add: vc_scope_def)
  qed simp_all
  then show ?thesis by (simp add: scope_cleanup_def Some)
qed

lemma sat_scope_forEach:
  assumes vc: "vc P R C" and ex: "sat P R ex"
  shows "P st \<Longrightarrow> holds (R st) (scope_forEach ex sc k i st)"
proof (induction k arbitrary: i st)
  case 0
  then show ?case by (simp add: vc_refl[OF vc])
next
  case (Suc k)
  have h1: "holds (R st) (if i < scopes st sc then scope_cleanup ex st else Ok () st)"
    using sat_scope_cleanup[OF vc ex Suc.prems] vc_refl[OF vc Suc.prems] by simp
  show ?case
    unfolding scope_forEach.simps
  proof (rule holds_bind[OF h1])
    fix u st1 assume R1: "R st st1"
    show "holds (R st) (scope_forEach ex sc k (Suc i) st1)"
      by (rule holds_trans[OF vc Suc.prems R1 Suc.IH[OF vc_stable[OF vc Suc.prems R1]]])
  qed
qed

lemma sat_scope_dispose:
  assumes vc: "vc P R C" and ex: "sat P R ex" and P: "P st"
  shows "holds (R st) (scope_dispose ex sc st)"
  unfolding scope_dispose_def
proof (rule holds_bind[OF sat_scope_forEach[OF vc ex P]])
  fix u st1 assume R1: "R st st1"
  have "R st1 (scope_clear sc st1)"
    using vc vc_stable[OF vc P R1] by (simp add: vc_def vc_scope_def)
  then show "holds (R st) (Ok () (scope_clear sc st1))"
    using vc_trans[OF vc P R1] by simp
qed

lemma holds_bind_ex:
  assumes vc: "vc P R C" and ex: "sat P R ex" and P: "P st" and h: "holds (R st) r"
  shows "holds (R st) (bind_r r (\<lambda>v. ex (k v)))"
proof (rule holds_bind[OF h])
  fix v st1 assume "R st st1"
  then show "holds (R st) (ex (k v) st1)" by (rule holds_then[OF vc ex P])
qed

lemma sat_step:
  assumes vc: "vc P R C" and ex: "sat P R ex" and P: "P st"
  shows "holds (R st) (step ex p st)"
proof (cases p)
  case (Return v)
  then show ?thesis by (simp add: step_def vc_refl[OF vc P])
next
  case (Throw x)
  then show ?thesis by (simp add: step_def vc_refl[OF vc P])
next
  case (NewSignal v k)
  have "R st (snd (signal v st))" using vc P by (simp add: vc_def vc_signal_def)
  then show ?thesis
    using holds_then[OF vc ex P] by (simp add: step_def NewSignal split_def Let_def)
next
  case (Read s k)
  show ?thesis
  proof (cases "s < nsignals st")
    case True
    then have "R st (snd (getter s st))" using vc P by (simp add: vc_def vc_signal_def)
    then show ?thesis
      using holds_then[OF vc ex P] True by (simp add: step_def Read split_def Let_def)
  next
    case False
    then show ?thesis by (simp add: step_def Read vc_refl[OF vc P])
  qed
next
  case (Write s v k)
  show ?thesis
    using holds_bind_ex[OF vc ex P sat_setter[OF vc ex P], of s v "\<lambda>_. k"] vc_refl[OF vc P]
    by (simp add: step_def Write)
next
  case (NewEffect fn k)
  show ?thesis
    using holds_bind_ex[OF vc ex P sat_effect[OF vc ex P]] by (simp add: step_def NewEffect)
next
  case (Dispose e k)
  show ?thesis
    using holds_bind_ex[OF vc ex P sat_disposer[OF vc ex P], of e "\<lambda>_. k"] vc_refl[OF vc P]
    by (simp add: step_def Dispose)
next
  case (Computed fn k)
  show ?thesis
    using holds_bind_ex[OF vc ex P sat_computed[OF vc ex P]] by (simp add: step_def Computed)
next
  case (Ignore fn k)
  show ?thesis
    using holds_bind_ex[OF vc ex P sat_ignore[OF vc ex P]] by (simp add: step_def Ignore)
next
  case (Scope fn k)
  show ?thesis
    using holds_bind_ex[OF vc ex P sat_scope[OF vc ex P]] by (simp add: step_def Scope)
next
  case (ScopeDispose sc k)
  show ?thesis
    using holds_bind_ex[OF vc ex P sat_scope_dispose[OF vc ex P], of sc "\<lambda>_. k"] vc_refl[OF vc P]
    by (simp add: step_def ScopeDispose)
next
  case (Closure c k)
  have "R st (new_fun c st)" using vc P by (simp add: vc_def vc_signal_def)
  then show ?thesis
    using holds_then[OF vc ex P] by (simp add: step_def Closure)
next
  case (Call p' k)
  show ?thesis
    using holds_bind_ex[OF vc ex P satD[OF ex P]] by (simp add: step_def Call)
next
  case (Try p' h k)
  have h1: "holds (R st) (ex p' st)" by (rule satD[OF ex P])
  show ?thesis
    using h1 holds_then[OF vc ex P]
    by (cases "ex p' st") (auto simp: step_def Try)
qed

lemma sat_exec:
  assumes vc: "vc P R C"
  shows "sat P R (exec n)"
proof (induction n)
  case 0
  show ?case by (simp add: sat_def)
next
  case (Suc n)
  show ?case
    unfolding sat_def exec.simps using sat_step[OF vc Suc] by blast
qed

text \<open>The loop of \<open>flush\<close>, given that the jobs in the queue may run.\<close>

lemma sat_flush_loop:
  assumes vc: "vc P R C" and ex: "sat P R ex"
      and job: "\<And>st i. P st \<Longrightarrow> i < length (queue st) \<Longrightarrow>
                 R st (log (EJob (queue st ! i)) st) \<and> C (queue st ! i) (log (EJob (queue st ! i)) st)"
  shows "P st \<Longrightarrow> holds (R st) (flush_loop ex m i st)"
proof (induction m arbitrary: i st)
  case 0
  show ?case by simp
next
  case (Suc m)
  show ?case
  proof (cases "i < length (queue st)")
    case False
    then show ?thesis by (simp add: vc_refl[OF vc Suc.prems])
  next
    case True
    let ?st0 = "log (EJob (queue st ! i)) st"
    have R0: "R st ?st0" and C0: "C (queue st ! i) ?st0" using job[OF Suc.prems True] by simp_all
    have P0: "P ?st0" by (rule vc_stable[OF vc Suc.prems R0])
    have h1: "holds (R st) (run ex (queue st ! i) ?st0)"
      by (rule holds_trans[OF vc Suc.prems R0 sat_run[OF vc ex P0 C0]])
    have "holds (R st) (bind_r (run ex (queue st ! i) ?st0) (\<lambda>_. flush_loop ex m (Suc i)))"
    proof (rule holds_bind[OF h1])
      fix u st1 assume R1: "R st st1"
      show "holds (R st) (flush_loop ex m (Suc i) st1)"
        by (rule holds_trans[OF vc Suc.prems R1 Suc.IH[OF vc_stable[OF vc Suc.prems R1]]])
    qed
    then show ?thesis using True by simp
  qed
qed


section \<open>Basic facts\<close>

lemma exec_Return [simp]: "exec (Suc n) (Return v) st = Ok v st"
  by (simp add: step_def)

declare exec.simps(2) [simp del]

lemma signals_fold_schedule [simp]: "signals (fold schedule es st) = signals st"
  by (induction es arbitrary: st) (simp_all add: schedule_def log_def Let_def)

lemma sig_value_store [simp]: "sig_value (signals (store s v st) s) = v"
  by (simp add: store_def upd_signal_def)

lemma fst_getter [simp]: "fst (getter s st) = sig_value (signals st s)"
  by (simp add: getter_def Let_def log_def upd_signal_def upd_effect_def split: option.splits)

lemma log_fields [simp]:
  "signals (log ev st) = signals st" "nsignals (log ev st) = nsignals st"
  "effects (log ev st) = effects st" "neffects (log ev st) = neffects st"
  "funs (log ev st) = funs st" "nfuns (log ev st) = nfuns st"
  "scopes (log ev st) = scopes st" "nscopes (log ev st) = nscopes st"
  "currentEffect (log ev st) = currentEffect st" "flushing (log ev st) = flushing st"
  "queue (log ev st) = queue st" "microtasks (log ev st) = microtasks st"
  "trace (log ev st) = ev # trace st"
  by (simp_all add: log_def)

lemma upd_signal_fields [simp]:
  "signals (upd_signal s f st) = (signals st)(s := f (signals st s))"
  "nsignals (upd_signal s f st) = nsignals st"
  "effects (upd_signal s f st) = effects st" "neffects (upd_signal s f st) = neffects st"
  "funs (upd_signal s f st) = funs st" "nfuns (upd_signal s f st) = nfuns st"
  "scopes (upd_signal s f st) = scopes st" "nscopes (upd_signal s f st) = nscopes st"
  "currentEffect (upd_signal s f st) = currentEffect st"
  "flushing (upd_signal s f st) = flushing st"
  "queue (upd_signal s f st) = queue st" "microtasks (upd_signal s f st) = microtasks st"
  "trace (upd_signal s f st) = trace st"
  by (simp_all add: upd_signal_def)

lemma upd_effect_fields [simp]:
  "signals (upd_effect e f st) = signals st" "nsignals (upd_effect e f st) = nsignals st"
  "effects (upd_effect e f st) = (effects st)(e := f (effects st e))"
  "neffects (upd_effect e f st) = neffects st"
  "funs (upd_effect e f st) = funs st" "nfuns (upd_effect e f st) = nfuns st"
  "scopes (upd_effect e f st) = scopes st" "nscopes (upd_effect e f st) = nscopes st"
  "currentEffect (upd_effect e f st) = currentEffect st"
  "flushing (upd_effect e f st) = flushing st"
  "queue (upd_effect e f st) = queue st" "microtasks (upd_effect e f st) = microtasks st"
  "trace (upd_effect e f st) = trace st"
  by (simp_all add: upd_effect_def)

lemma schedule_fields [simp]:
  "signals (schedule j st) = signals st" "nsignals (schedule j st) = nsignals st"
  "effects (schedule j st) = effects st" "neffects (schedule j st) = neffects st"
  "funs (schedule j st) = funs st" "nfuns (schedule j st) = nfuns st"
  "scopes (schedule j st) = scopes st" "nscopes (schedule j st) = nscopes st"
  "currentEffect (schedule j st) = currentEffect st"
  "flushing (schedule j st) = True"
  "queue (schedule j st) = (if j \<in> set (queue st) then queue st else queue st @ [j])"
  "microtasks (schedule j st) = (if flushing st then microtasks st else Suc (microtasks st))"
  "trace (schedule j st) = ESchedule j # trace st"
  by (simp_all add: schedule_def Let_def log_def)

lemma fold_schedule_fields [simp]:
  "signals (fold schedule es st) = signals st" "nsignals (fold schedule es st) = nsignals st"
  "effects (fold schedule es st) = effects st" "neffects (fold schedule es st) = neffects st"
  "funs (fold schedule es st) = funs st" "nfuns (fold schedule es st) = nfuns st"
  "scopes (fold schedule es st) = scopes st" "nscopes (fold schedule es st) = nscopes st"
  "currentEffect (fold schedule es st) = currentEffect st"
  "trace (fold schedule es st) = rev (map ESchedule es) @ trace st"
  by (induction es arbitrary: st; simp)+

lemma fold_schedule_flushing [simp]:
  "flushing (fold schedule es st) = (flushing st \<or> es \<noteq> [])"
  by (induction es arbitrary: st) auto

lemma fold_schedule_microtasks [simp]:
  "microtasks (fold schedule es st) =
     (if flushing st \<or> es = [] then microtasks st else Suc (microtasks st))"
  by (induction es arbitrary: st) auto

lemma fold_schedule_queue_set [simp]:
  "set (queue (fold schedule es st)) = set (queue st) \<union> set es"
  by (induction es arbitrary: st) auto

lemma fold_schedule_queue_prefix: "prefix (queue st) (queue (fold schedule es st))"
proof (induction es arbitrary: st)
  case Nil
  show ?case by simp
next
  case (Cons e es)
  have "prefix (queue st) (queue (schedule e st))" by simp
  then show ?case using Cons[of "schedule e st"] by (auto intro: prefix_order.trans simp del: schedule_fields)
qed

lemma fold_schedule_queue_distinct:
  "distinct (queue st) \<Longrightarrow> distinct (queue (fold schedule es st))"
  by (induction es arbitrary: st) auto

lemma store_fields [simp]:
  "nsignals (store s v st) = nsignals st"
  "effects (store s v st) = effects st" "neffects (store s v st) = neffects st"
  "funs (store s v st) = funs st" "nfuns (store s v st) = nfuns st"
  "scopes (store s v st) = scopes st" "nscopes (store s v st) = nscopes st"
  "currentEffect (store s v st) = currentEffect st"
  by (simp_all add: store_def)

lemma store_signals [simp]:
  "subs (signals (store s v st) s') = subs (signals st s')"
  "sig_value (signals (store s v st) s') = (if s' = s then v else sig_value (signals st s'))"
  by (auto simp: store_def)

lemma store_trace:
  "trace (store s v st) =
     (if sig_value (signals st s) \<noteq> v then rev (map ESchedule (subs (signals st s))) @ trace st
      else trace st)"
  by (simp add: store_def)

lemma store_queue_prefix: "prefix (queue st) (queue (store s v st))"
  using fold_schedule_queue_prefix[of "upd_signal s (sig_value_update (\<lambda>_. v)) st"]
  by (simp add: store_def)

lemma store_queue_set:
  "set (queue (store s v st)) =
     (if sig_value (signals st s) \<noteq> v then set (queue st) \<union> set (subs (signals st s))
      else set (queue st))"
  by (simp add: store_def)

lemma store_queue_distinct: "distinct (queue st) \<Longrightarrow> distinct (queue (store s v st))"
  using fold_schedule_queue_distinct[of "upd_signal s (sig_value_update (\<lambda>_. v)) st"]
  by (simp add: store_def)

lemma store_flushing:
  "flushing (store s v st) =
     (flushing st \<or> (sig_value (signals st s) \<noteq> v \<and> subs (signals st s) \<noteq> []))"
  by (simp add: store_def)

lemma store_microtasks:
  "microtasks (store s v st) =
     (if flushing st \<or> sig_value (signals st s) = v \<or> subs (signals st s) = []
      then microtasks st else Suc (microtasks st))"
  by (simp add: store_def)

lemma signal_fields [simp]:
  "fst (signal v st) = nsignals st"
  "signals (snd (signal v st)) = (signals st)(nsignals st := \<lparr>sig_value = v, subs = []\<rparr>)"
  "nsignals (snd (signal v st)) = Suc (nsignals st)"
  "effects (snd (signal v st)) = effects st" "neffects (snd (signal v st)) = neffects st"
  "funs (snd (signal v st)) = funs st" "nfuns (snd (signal v st)) = nfuns st"
  "scopes (snd (signal v st)) = scopes st" "nscopes (snd (signal v st)) = nscopes st"
  "currentEffect (snd (signal v st)) = currentEffect st"
  "flushing (snd (signal v st)) = flushing st"
  "queue (snd (signal v st)) = queue st" "microtasks (snd (signal v st)) = microtasks st"
  "trace (snd (signal v st)) = trace st"
  by (simp_all add: signal_def)

lemma getter_fields [simp]:
  "fst (getter s st) = sig_value (signals st s)"
  "nsignals (snd (getter s st)) = nsignals st"
  "neffects (snd (getter s st)) = neffects st"
  "funs (snd (getter s st)) = funs st" "nfuns (snd (getter s st)) = nfuns st"
  "scopes (snd (getter s st)) = scopes st" "nscopes (snd (getter s st)) = nscopes st"
  "currentEffect (snd (getter s st)) = currentEffect st"
  "flushing (snd (getter s st)) = flushing st"
  "queue (snd (getter s st)) = queue st" "microtasks (snd (getter s st)) = microtasks st"
  "trace (snd (getter s st)) = ERead (currentEffect st) s # trace st"
  by (simp_all add: getter_def Let_def split: option.splits)

lemma getter_subs:
  "subs (signals (snd (getter s st)) s') =
     (case currentEffect st of
        Some e \<Rightarrow> if s' = s then set_add e (subs (signals st s)) else subs (signals st s')
      | None \<Rightarrow> subs (signals st s'))"
  by (simp add: getter_def Let_def split: option.splits)

lemma getter_deps:
  "deps (effects (snd (getter s st)) e') =
     (case currentEffect st of
        Some e \<Rightarrow> if e' = e then set_add s (deps (effects st e)) else deps (effects st e')
      | None \<Rightarrow> deps (effects st e'))"
  by (simp add: getter_def Let_def split: option.splits)

lemma getter_unchanged [simp]:
  "sig_value (signals (snd (getter s st)) s') = sig_value (signals st s')"
  "body (effects (snd (getter s st)) e') = body (effects st e')"
  "cleanups (effects (snd (getter s st)) e') = cleanups (effects st e')"
  by (simp_all add: getter_def Let_def split: option.splits)

lemma fold_unsub_fields [simp]:
  "nsignals (fold (\<lambda>s. upd_signal s f) ss st) = nsignals st"
  "effects (fold (\<lambda>s. upd_signal s f) ss st) = effects st"
  "neffects (fold (\<lambda>s. upd_signal s f) ss st) = neffects st"
  "funs (fold (\<lambda>s. upd_signal s f) ss st) = funs st"
  "nfuns (fold (\<lambda>s. upd_signal s f) ss st) = nfuns st"
  "scopes (fold (\<lambda>s. upd_signal s f) ss st) = scopes st"
  "nscopes (fold (\<lambda>s. upd_signal s f) ss st) = nscopes st"
  "currentEffect (fold (\<lambda>s. upd_signal s f) ss st) = currentEffect st"
  "flushing (fold (\<lambda>s. upd_signal s f) ss st) = flushing st"
  "queue (fold (\<lambda>s. upd_signal s f) ss st) = queue st"
  "microtasks (fold (\<lambda>s. upd_signal s f) ss st) = microtasks st"
  "trace (fold (\<lambda>s. upd_signal s f) ss st) = trace st"
  by (induction ss arbitrary: st; simp)+

lemma fold_unsub_signals:
  "subs (signals (fold (\<lambda>s. upd_signal s (subs_update (removeAll e))) ss st) s) =
     (if s \<in> set ss then removeAll e (subs (signals st s)) else subs (signals st s))"
  by (induction ss arbitrary: st) auto

lemma fold_unsub_value [simp]:
  "sig_value (signals (fold (\<lambda>s. upd_signal s (subs_update g)) ss st) s) = sig_value (signals st s)"
  by (induction ss arbitrary: st) auto

lemma unsubscribe_fields [simp]:
  "nsignals (unsubscribe e st) = nsignals st"
  "effects (unsubscribe e st) = effects st" "neffects (unsubscribe e st) = neffects st"
  "funs (unsubscribe e st) = funs st" "nfuns (unsubscribe e st) = nfuns st"
  "scopes (unsubscribe e st) = scopes st" "nscopes (unsubscribe e st) = nscopes st"
  "currentEffect (unsubscribe e st) = currentEffect st"
  "flushing (unsubscribe e st) = flushing st"
  "queue (unsubscribe e st) = queue st" "microtasks (unsubscribe e st) = microtasks st"
  "trace (unsubscribe e st) = trace st"
  "sig_value (signals (unsubscribe e st) s) = sig_value (signals st s)"
  by (simp_all add: unsubscribe_def)

lemma unsubscribe_subs:
  "subs (signals (unsubscribe e st) s) =
     (if s \<in> set (deps (effects st e)) then removeAll e (subs (signals st s))
      else subs (signals st s))"
  by (simp add: unsubscribe_def fold_unsub_signals)

lemma run_enter_fields [simp]:
  "nsignals (run_enter e st) = nsignals st"
  "neffects (run_enter e st) = neffects st"
  "funs (run_enter e st) = funs st" "nfuns (run_enter e st) = nfuns st"
  "scopes (run_enter e st) = scopes st" "nscopes (run_enter e st) = nscopes st"
  "currentEffect (run_enter e st) = Some e"
  "flushing (run_enter e st) = flushing st"
  "queue (run_enter e st) = queue st" "microtasks (run_enter e st) = microtasks st"
  "trace (run_enter e st) = EBody e # trace st"
  "sig_value (signals (run_enter e st) s) = sig_value (signals st s)"
  "body (effects (run_enter e st) e') = body (effects st e')"
  "deps (effects (run_enter e st) e') = (if e' = e then [] else deps (effects st e'))"
  "cleanups (effects (run_enter e st) e') = (if e' = e then [] else cleanups (effects st e'))"
  by (simp_all add: run_enter_def Let_def)

lemma run_enter_subs:
  "subs (signals (run_enter e st) s) =
     (if s \<in> set (deps (effects st e)) then removeAll e (subs (signals st s))
      else subs (signals st s))"
  by (simp add: run_enter_def Let_def unsubscribe_subs)

lemma push_cleanup_fields [simp]:
  "signals (push_cleanup e v st) = signals st" "nsignals (push_cleanup e v st) = nsignals st"
  "neffects (push_cleanup e v st) = neffects st"
  "funs (push_cleanup e v st) = funs st" "nfuns (push_cleanup e v st) = nfuns st"
  "scopes (push_cleanup e v st) = scopes st" "nscopes (push_cleanup e v st) = nscopes st"
  "currentEffect (push_cleanup e v st) = currentEffect st"
  "flushing (push_cleanup e v st) = flushing st"
  "queue (push_cleanup e v st) = queue st" "microtasks (push_cleanup e v st) = microtasks st"
  "trace (push_cleanup e v st) = trace st"
  by (simp_all add: push_cleanup_def split: val.splits)

lemma push_cleanup_cleanups:
  "cleanups (effects (push_cleanup e v st) e') =
     (if e' = e then (case v of VFun f \<Rightarrow> cleanups (effects st e) @ [f]
                      | _ \<Rightarrow> cleanups (effects st e))
      else cleanups (effects st e'))"
  by (simp add: push_cleanup_def split: val.splits)

lemma push_cleanup_unchanged [simp]:
  "body (effects (push_cleanup e v st) e') = body (effects st e')"
  "deps (effects (push_cleanup e v st) e') = deps (effects st e')"
  by (simp_all add: push_cleanup_def split: val.splits)

lemma dispose_exit_fields [simp]:
  "nsignals (dispose_exit e st) = nsignals st"
  "effects (dispose_exit e st) = effects st" "neffects (dispose_exit e st) = neffects st"
  "funs (dispose_exit e st) = funs st" "nfuns (dispose_exit e st) = nfuns st"
  "scopes (dispose_exit e st) = scopes st" "nscopes (dispose_exit e st) = nscopes st"
  "currentEffect (dispose_exit e st) = currentEffect st"
  "flushing (dispose_exit e st) = flushing st"
  "queue (dispose_exit e st) = queue st" "microtasks (dispose_exit e st) = microtasks st"
  "trace (dispose_exit e st) = EDisposed e # trace st"
  "sig_value (signals (dispose_exit e st) s) = sig_value (signals st s)"
  by (simp_all add: dispose_exit_def)

lemma dispose_exit_subs:
  "subs (signals (dispose_exit e st) s) =
     (if s \<in> set (deps (effects st e)) then removeAll e (subs (signals st s))
      else subs (signals st s))"
  by (simp add: dispose_exit_def unsubscribe_subs)

lemma new_effect_fields [simp]:
  "signals (new_effect fn st) = signals st" "nsignals (new_effect fn st) = nsignals st"
  "effects (new_effect fn st) = (effects st)(neffects st := \<lparr>body = fn, deps = [], cleanups = []\<rparr>)"
  "neffects (new_effect fn st) = Suc (neffects st)"
  "funs (new_effect fn st) = funs st" "nfuns (new_effect fn st) = nfuns st"
  "scopes (new_effect fn st) = scopes st" "nscopes (new_effect fn st) = nscopes st"
  "currentEffect (new_effect fn st) = currentEffect st"
  "flushing (new_effect fn st) = flushing st"
  "queue (new_effect fn st) = queue st" "microtasks (new_effect fn st) = microtasks st"
  "trace (new_effect fn st) = trace st"
  by (simp_all add: new_effect_def)

lemma new_fun_fields [simp]:
  "signals (new_fun c st) = signals st" "nsignals (new_fun c st) = nsignals st"
  "effects (new_fun c st) = effects st" "neffects (new_fun c st) = neffects st"
  "funs (new_fun c st) = (funs st)(nfuns st := c)" "nfuns (new_fun c st) = Suc (nfuns st)"
  "scopes (new_fun c st) = scopes st" "nscopes (new_fun c st) = nscopes st"
  "currentEffect (new_fun c st) = currentEffect st"
  "flushing (new_fun c st) = flushing st"
  "queue (new_fun c st) = queue st" "microtasks (new_fun c st) = microtasks st"
  "trace (new_fun c st) = trace st"
  by (simp_all add: new_fun_def)

lemma scope_enter_fields [simp]:
  "signals (scope_enter st) = signals st" "nsignals (scope_enter st) = nsignals st"
  "effects (scope_enter st) = effects st" "neffects (scope_enter st) = neffects st"
  "funs (scope_enter st) = funs st" "nfuns (scope_enter st) = nfuns st"
  "scopes (scope_enter st) = (scopes st)(nscopes st := 0)"
  "nscopes (scope_enter st) = Suc (nscopes st)"
  "currentEffect (scope_enter st) = None"
  "flushing (scope_enter st) = flushing st"
  "queue (scope_enter st) = queue st" "microtasks (scope_enter st) = microtasks st"
  "trace (scope_enter st) = trace st"
  by (simp_all add: scope_enter_def)

lemma scope_push_fields [simp]:
  "signals (scope_push sc st) = signals st" "nsignals (scope_push sc st) = nsignals st"
  "effects (scope_push sc st) = effects st" "neffects (scope_push sc st) = neffects st"
  "funs (scope_push sc st) = funs st" "nfuns (scope_push sc st) = nfuns st"
  "nscopes (scope_push sc st) = nscopes st"
  "currentEffect (scope_push sc st) = currentEffect st"
  "flushing (scope_push sc st) = flushing st"
  "queue (scope_push sc st) = queue st" "microtasks (scope_push sc st) = microtasks st"
  "trace (scope_push sc st) = trace st"
  by (simp_all add: scope_push_def)

lemma scope_clear_fields [simp]:
  "signals (scope_clear sc st) = signals st" "nsignals (scope_clear sc st) = nsignals st"
  "effects (scope_clear sc st) = effects st" "neffects (scope_clear sc st) = neffects st"
  "funs (scope_clear sc st) = funs st" "nfuns (scope_clear sc st) = nfuns st"
  "scopes (scope_clear sc st) = (scopes st)(sc := 0)"
  "nscopes (scope_clear sc st) = nscopes st"
  "currentEffect (scope_clear sc st) = currentEffect st"
  "flushing (scope_clear sc st) = flushing st"
  "queue (scope_clear sc st) = queue st" "microtasks (scope_clear sc st) = microtasks st"
  "trace (scope_clear sc st) = trace st"
  by (simp_all add: scope_clear_def)

lemmas vc_defs = vc_def vc_order_def vc_signal_def vc_effect_def vc_scope_def

lemma vc_frame: "vc (\<lambda>_. True) frame (\<lambda>_ _. True)"
  unfolding vc_defs
  by (auto simp: frame_def store_trace store_queue_prefix store_flushing store_microtasks
           intro: prefix_order.trans)


section \<open>Writes (claims C2 and C6)\<close>

lemma setter_literal: "\<not> is_function v \<Longrightarrow> setter ex s v st = Ok () (store s v st)"
  by (cases v) (simp_all add: setter_def)

lemma setter_updater:
  "ex (funs st f (sig_value (signals st s))) st = Ok r st1 \<Longrightarrow>
   setter ex s (VFun f) st = Ok () (store s r st1)"
  by (simp add: setter_def)

lemma store_same: "store s (sig_value (signals st s)) st = st"
  by (simp add: store_def)

text \<open>
  Claim C2.  A write whose candidate value is identical (\<open>Object.is\<close>) to the current value
  is a no-op: the setter returns the state it was called in, so the stored value, every
  subscriber set, the queue and the trace (in which every call of \<open>schedule\<close> is recorded)
  are unchanged.  The candidate is the literal \<open>v\<close> when \<open>v\<close> is not a function, and the value
  returned by the updater, a function of the previous value, when it is one.  An updater
  that is arbitrary client code is covered as well: the setter adds nothing to what the
  updater did itself when the value it returned is the one stored at that point.
\<close>

theorem C2_identical_write_noop:
  "(\<not> is_function v \<and> v = sig_value (signals st s) \<longrightarrow> setter ex s v st = Ok () st) \<and>
   (funs st f = (\<lambda>prev. Return (g prev)) \<and> g (sig_value (signals st s)) = sig_value (signals st s)
      \<longrightarrow> setter (exec (Suc n)) s (VFun f) st = Ok () st) \<and>
   (ex (funs st f (sig_value (signals st s))) st = Ok r st1 \<and> r = sig_value (signals st1 s)
      \<longrightarrow> setter ex s (VFun f) st = Ok () st1)"
proof (intro conjI impI)
  assume "\<not> is_function v \<and> v = sig_value (signals st s)"
  then show "setter ex s v st = Ok () st"
    using setter_literal[of v ex s st] store_same[of s st] by auto
next
  assume a: "funs st f = (\<lambda>prev. Return (g prev)) \<and>
             g (sig_value (signals st s)) = sig_value (signals st s)"
  then have "exec (Suc n) (funs st f (sig_value (signals st s))) st
             = Ok (sig_value (signals st s)) st"
    by simp
  from setter_updater[of "exec (Suc n)" st f s, OF this]
  show "setter (exec (Suc n)) s (VFun f) st = Ok () st"
    by (simp add: store_same)
next
  assume "ex (funs st f (sig_value (signals st s))) st = Ok r st1 \<and> r = sig_value (signals st1 s)"
  then show "setter ex s (VFun f) st = Ok () st1"
    using setter_updater[of ex st f s r st1] by (simp add: store_same)
qed

theorem C2_witness:
  "subs (signals st_subscribed 0) = [0] \<and> queue st_subscribed = [] \<and>
   setter (exec 0) 0 (VNum 0) st_subscribed = Ok () st_subscribed \<and>
   setter (exec (Suc 0)) 0 (VFun 1) st_subscribed = Ok () st_subscribed \<and>
   setter (exec (Suc (Suc 0))) 0 (VFun 1) st_subscribed = Ok () st_subscribed \<and>
   queue (store 0 (VNum 1) st_subscribed) = [0]"
proof -
  have s: "subs (signals st_subscribed 0) = [0]" "queue st_subscribed = []"
          "queue (store 0 (VNum 1) st_subscribed) = [0]"
    by code_simp+
  have v: "sig_value (signals st_subscribed 0) = VNum 0" by code_simp
  have n: "nfuns (after [Task 5 prog_subscribed]) = 1" by code_simp
  have f: "funs st_subscribed 1 = (\<lambda>prev. Return prev)"
    by (simp add: st_subscribed_def new_fun_def n)
  have a: "\<not> is_function (VNum 0) \<and> VNum 0 = sig_value (signals st_subscribed 0)"
    by (simp add: v)
  have b: "funs st_subscribed 1 = (\<lambda>prev. Return ((\<lambda>x. x) prev)) \<and>
           (\<lambda>x. x) (sig_value (signals st_subscribed 0)) = sig_value (signals st_subscribed 0)"
    using f by simp
  have c: "exec (Suc (Suc 0)) (funs st_subscribed 1 (sig_value (signals st_subscribed 0))) st_subscribed =
             Ok (VNum 0) st_subscribed \<and> VNum 0 = sig_value (signals st_subscribed 0)"
    using f v by simp
  have 1: "setter (exec 0) 0 (VNum 0) st_subscribed = Ok () st_subscribed"
    by (rule C2_identical_write_noop[where v="VNum 0" and st=st_subscribed and s=0
              and ex="exec 0", THEN conjunct1, THEN mp, OF a])
  have 2: "setter (exec (Suc 0)) 0 (VFun 1) st_subscribed = Ok () st_subscribed"
    by (rule C2_identical_write_noop[where st=st_subscribed and s=0 and f=1 and g="\<lambda>x. x"
              and n=0, THEN conjunct2, THEN conjunct1, THEN mp, OF b])
  have 3: "setter (exec (Suc (Suc 0))) 0 (VFun 1) st_subscribed = Ok () st_subscribed"
    by (rule C2_identical_write_noop[where ex="exec (Suc (Suc 0))" and st=st_subscribed and s=0
              and f=1 and r="VNum 0" and ?st1.0=st_subscribed,
              THEN conjunct2, THEN conjunct2, THEN mp, OF c])
  show ?thesis by (intro conjI s 1 2 3)
qed

text \<open>
  Claim C6, as amended.  A write followed by a read returns \<open>v\<close> when \<open>v\<close> is not a function.
  Every function value is called as an updater (\<open>typeof nextValue === "function"\<close>), also
  when the signal is meant to hold functions: the read then returns what the call returned.
\<close>

theorem C6_write_then_read:
  "(\<not> is_function v \<longrightarrow>
      setter ex s v st = Ok () (store s v st) \<and> fst (getter s (store s v st)) = v) \<and>
   (ex (funs st f (sig_value (signals st s))) st = Ok r st1 \<longrightarrow>
      setter ex s (VFun f) st = Ok () (store s r st1) \<and> fst (getter s (store s r st1)) = r)"
  by (simp add: setter_literal setter_updater)

text \<open>
  The claim as stated fails for a signal of function type: the function \<open>g\<close> written as a
  literal value is called, and the value read back is 7 and not \<open>g\<close>.
\<close>

theorem C6_counterexample:
  "result_value (exec 5 prog_fun_value init) = Some (VBool False)"
  by code_simp

theorem C6_witness:
  "setter (exec 0) 0 (VNum 4) st_updater = Ok () (store 0 (VNum 4) st_updater) \<and>
   fst (getter 0 (store 0 (VNum 4) st_updater)) = VNum 4 \<and>
   setter (exec (Suc 0)) 0 (VFun 0) st_updater = Ok () (store 0 (VNum 3) st_updater) \<and>
   fst (getter 0 (store 0 (VNum 3) st_updater)) = VNum 3"
proof -
  have b: "exec (Suc 0) (funs st_updater 0 (sig_value (signals st_updater 0))) st_updater = Ok (VNum 3) st_updater"
    by (simp add: st_updater_def new_fun_def signal_def init_def)
  from C6_write_then_read[of "VNum 4" "exec 0" 0 st_updater] 
       C6_write_then_read[of "VNum 4" "exec (Suc 0)" 0 st_updater 0 "VNum 3" st_updater] b
  show ?thesis by simp
qed


section \<open>The scheduler (claims C3 and C4)\<close>

lemma jobs_append [simp]: "jobs (a @ b) = jobs a @ jobs b"
  by (induction a rule: jobs.induct) simp_all

lemma jobs_schedules [simp]: "jobs (map ESchedule es) = []"
  by (induction es) simp_all

lemma jobs_rev_schedules [simp]: "jobs (rev (map ESchedule es)) = []"
  by (simp add: rev_map)

lemma bind_r_eq_Ok:
  "bind_r r f = Ok v st' \<longleftrightarrow> (\<exists>u st1. r = Ok u st1 \<and> f u st1 = Ok v st')"
  by (cases r) auto

lemma bind_r_OkE:
  assumes "bind_r r f = Ok v st'"
  obtains u st1 where "r = Ok u st1" "f u st1 = Ok v st'"
  using assms by (cases r) auto

lemma bind_r_ErrE:
  assumes "bind_r r f = Err x st'"
  obtains "r = Err x st'" | u st1 where "r = Ok u st1" "f u st1 = Err x st'"
  using assms by (cases r) auto

lemma bind_r_eq_Err:
  "bind_r r f = Err x st' \<longleftrightarrow>
     r = Err x st' \<or> (\<exists>u st1. r = Ok u st1 \<and> f u st1 = Err x st')"
  by (cases r) auto

lemma vc_quiet: "vc (\<lambda>_. True) quiet (\<lambda>_ _. True)"
  unfolding vc_defs by (auto simp: quiet_def store_trace)

lemma vc_sched_ok: "vc sched_ok (\<lambda>st st'. sched_ok st') (\<lambda>_ _. True)"
  unfolding vc_defs
  by (auto simp: sched_ok_def store_queue_distinct store_flushing store_microtasks)

lemma exec_frame: "holds (frame st) (exec n p st)"
  using sat_exec[OF vc_frame, of n] by (simp add: sat_def)

lemma exec_quiet: "holds (quiet st) (exec n p st)"
  using sat_exec[OF vc_quiet, of n] by (simp add: sat_def)

lemma run_frame: "holds (frame st) (run (exec n) e st)"
  by (rule sat_run[OF vc_frame sat_exec[OF vc_frame]]) simp_all

lemma run_quiet: "holds (quiet st) (run (exec n) e st)"
  by (rule sat_run[OF vc_quiet sat_exec[OF vc_quiet]]) simp_all

lemma flush_loop_frame: "holds (frame st) (flush_loop (exec n) m i st)"
  by (rule sat_flush_loop[OF vc_frame sat_exec[OF vc_frame]]) (simp_all add: frame_def)

lemma holdsI:
  "(\<And>v st'. r = Ok v st' \<Longrightarrow> Q st') \<Longrightarrow> (\<And>x st'. r = Err x st' \<Longrightarrow> Q st') \<Longrightarrow> holds Q r"
  by (cases r) auto

lemma holds_OkD: "holds Q r \<Longrightarrow> r = Ok v st' \<Longrightarrow> Q st'"
  by simp

lemma holds_ErrD: "holds Q r \<Longrightarrow> r = Err x st' \<Longrightarrow> Q st'"
  by simp

lemma prefix_nth: "prefix xs ys \<Longrightarrow> i < length xs \<Longrightarrow> ys ! i = xs ! i"
  by (auto simp: prefix_def nth_append)

lemma prefix_length: "prefix xs ys \<Longrightarrow> length xs \<le> length ys"
  by (auto simp: prefix_def)


lemma exec_sched_ok: "sched_ok st \<Longrightarrow> holds sched_ok (exec n p st)"
  using sat_exec[OF vc_sched_ok, of n] by (simp add: sat_def)

lemma flush_loop_sched_ok: "sched_ok st \<Longrightarrow> holds sched_ok (flush_loop (exec n) m i st)"
  by (rule sat_flush_loop[OF vc_sched_ok sat_exec[OF vc_sched_ok]]) (simp_all add: sched_ok_def)

lemma drive_op_sched_ok:
  assumes "sched_ok st" and "drive_op a st = Some st'"
  shows "sched_ok st'"
proof (cases a)
  case (Task n p)
  with assms exec_sched_ok[OF assms(1), where n=n and p=p] show ?thesis
    by (cases "exec n p st") auto
next
  case (Microtask n)
  let ?st0 = "st\<lparr>microtasks := microtasks st - 1\<rparr>"
  from assms Microtask have m: "microtasks st = 1" and f: "flushing st"
    by (auto simp: sched_ok_def split: if_splits)
  have s0: "sched_ok ?st0" using assms(1) by (simp add: sched_ok_def)
  have a: "holds sched_ok (flush_loop (exec n) n 0 ?st0)" by (rule flush_loop_sched_ok[OF s0])
  have b: "holds (frame ?st0) (flush_loop (exec n) n 0 ?st0)" by (rule flush_loop_frame)
  show ?thesis
  proof (cases "flush_loop (exec n) n 0 ?st0")
    case (Ok u st1)
    with assms Microtask m have "st' = st1\<lparr>queue := [], flushing := False\<rparr>"
      by (simp add: flush_def)
    moreover from b Ok m f have "microtasks st1 = 0" by (simp add: frame_def)
    ultimately show ?thesis by (simp add: sched_ok_def)
  next
    case (Err x st1)
    with assms Microtask m have "st' = st1" by (simp add: flush_def)
    with a Err show ?thesis by simp
  next
    case Diverge
    with assms Microtask m show ?thesis by (simp add: flush_def)
  qed
qed

lemma drive_sched_ok: "sched_ok st \<Longrightarrow> drive ops st = Some st' \<Longrightarrow> sched_ok st'"
proof (induction ops arbitrary: st)
  case Nil
  then show ?case by simp
next
  case (Cons a ops)
  then show ?case by (auto split: option.splits dest: drive_op_sched_ok)
qed

lemma sched_ok_init: "sched_ok init"
  by (simp add: sched_ok_def init_def)


lemma drive_stuck:
  "stuck st \<Longrightarrow> drive ops st = Some st' \<Longrightarrow> stuck st' \<and> jobs (trace st') = jobs (trace st)"
proof (induction ops arbitrary: st)
  case Nil
  then show ?case by simp
next
  case (Cons a ops)
  then obtain st1 where 1: "drive_op a st = Some st1" and 2: "drive ops st1 = Some st'"
    by (auto split: option.splits)
  have "stuck st1 \<and> jobs (trace st1) = jobs (trace st)"
  proof (cases a)
    case (Task n p)
    with 1 exec_frame[where st=st and n=n and p=p] exec_quiet[where st=st and n=n and p=p] Cons.prems(1) show ?thesis
      by (cases "exec n p st") (auto simp: stuck_def frame_def quiet_def)
  next
    case (Microtask n)
    with 1 Cons.prems(1) show ?thesis by (simp add: stuck_def)
  qed
  with Cons.IH[OF _ 2] show ?case by simp
qed

text \<open>
  A loop that throws: the state \<open>stk\<close> in which it reached the index \<open>k\<close> of the job that
  threw, and the state that this job's \<open>run\<close> left, which is the one the loop ends in.
\<close>

lemma flush_loop_throw:
  "flush_loop (exec n) m i st = Err x st' \<Longrightarrow>
   \<exists>k stk. i \<le> k \<and> k < length (queue stk) \<and>
     prefix (queue st) (queue stk) \<and> prefix (queue stk) (queue st') \<and>
     rev (jobs (trace stk)) = rev (jobs (trace st)) @ take (k - i) (drop i (queue stk)) \<and>
     run (exec n) (queue stk ! k) (log (EJob (queue stk ! k)) stk) = Err x st'"
proof (induction m arbitrary: i st)
  case 0
  then show ?case by simp
next
  case (Suc m)
  from Suc.prems have i: "i < length (queue st)" by (auto split: if_splits)
  let ?e = "queue st ! i"
  let ?st0 = "log (EJob ?e) st"
  show ?case
  proof (cases "run (exec n) ?e ?st0")
    case Diverge
    with Suc.prems i show ?thesis by simp
  next
    case (Err y st1)
    with Suc.prems i have eq: "y = x" "st1 = st'" by simp_all
    from run_frame[where st="?st0" and n=n and e="?e"] Err eq
    have "prefix (queue st) (queue st')" by (simp add: frame_def)
    with i Err eq show ?thesis
      by (intro exI[of _ i] exI[of _ st]) simp
  next
    case (Ok u st1)
    with Suc.prems i have l: "flush_loop (exec n) m (Suc i) st1 = Err x st'" by simp
    from run_frame[where st="?st0" and n=n and e="?e"] Ok
    have p1: "prefix (queue st) (queue st1)" by (simp add: frame_def)
    from run_quiet[where st="?st0" and n=n and e="?e"] Ok
    have j1: "jobs (trace st1) = ?e # jobs (trace st)" by (simp add: quiet_def)
    from Suc.IH[OF l] obtain k stk where k: "Suc i \<le> k" "k < length (queue stk)"
      and p2: "prefix (queue st1) (queue stk)" and p3: "prefix (queue stk) (queue st')"
      and j2: "rev (jobs (trace stk)) =
               rev (jobs (trace st1)) @ take (k - Suc i) (drop (Suc i) (queue stk))"
      and r: "run (exec n) (queue stk ! k) (log (EJob (queue stk ! k)) stk) = Err x st'"
      by blast
    have p: "prefix (queue st) (queue stk)" using p1 p2 by (rule prefix_order.trans)
    have ik: "i < length (queue stk)" using k by simp
    have n: "queue stk ! i = ?e" by (rule prefix_nth[OF p i])
    have "take (k - i) (drop i (queue stk)) =
          ?e # take (k - Suc i) (drop (Suc i) (queue stk))"
    proof -
      have "drop i (queue stk) = queue stk ! i # drop (Suc i) (queue stk)"
        using ik by (simp add: Cons_nth_drop_Suc)
      moreover have "k - i = Suc (k - Suc i)" using k by simp
      ultimately show ?thesis using n by simp
    qed
    with j1 j2 have "rev (jobs (trace stk)) =
                     rev (jobs (trace st)) @ take (k - i) (drop i (queue stk))"
      by simp
    with k p p3 r show ?thesis
      by (intro exI[of _ k] exI[of _ stk]) simp
  qed
qed

text \<open>
  Claim C4.  A flush whose jobs all return leaves the queue empty and the flag unset.
  A flush in which a job throws ends in the state that this job's \<open>run\<close> left, with its
  exception: no job is called after it.  The loop had called the jobs before it in the
  queue, in order, and nothing else; so the jobs called in the pass are the initial part
  of the queue that ends with the job that threw.  The flag stays set, and the queue is
  not cleared: it still begins with the queue the flush started with.
  From then on, whatever tasks run, the flag stays set, no flush is pending and none can
  run, and no job is called again.
\<close>

theorem C4_flush_failure:
  "(flush (exec n) m st = Ok () st' \<longrightarrow> queue st' = [] \<and> \<not> flushing st') \<and>
   (flushing st \<and> flush (exec n) m st = Err x st' \<longrightarrow>
      flushing st' \<and> queue st' \<noteq> [] \<and> prefix (queue st) (queue st') \<and>
      (\<exists>k<length (queue st'). \<exists>stk.
         prefix (queue st) (queue stk) \<and> prefix (queue stk) (queue st') \<and>
         k < length (queue stk) \<and> queue stk ! k = queue st' ! k \<and>
         rev (jobs (trace stk)) = rev (jobs (trace st)) @ take k (queue st') \<and>
         run (exec n) (queue st' ! k) (log (EJob (queue st' ! k)) stk) = Err x st' \<and>
         rev (jobs (trace st')) = rev (jobs (trace st)) @ take (Suc k) (queue st'))) \<and>
   (drive ops init = Some st \<and> microtasks st \<noteq> 0 \<and>
    flush (exec n) m (st\<lparr>microtasks := microtasks st - 1\<rparr>) = Err x st1 \<and>
    drive ops' st1 = Some st2 \<longrightarrow>
      flushing st2 \<and> microtasks st2 = 0 \<and> jobs (trace st2) = jobs (trace st1) \<and>
      drive_op (Microtask n') st2 = None)"
proof (intro conjI impI)
  assume "flush (exec n) m st = Ok () st'"
  then show "queue st' = []" "\<not> flushing st'"
    by (auto simp: flush_def elim!: bind_r_OkE)
next
  assume a: "flushing st \<and> flush (exec n) m st = Err x st'"
  then have e: "flush_loop (exec n) m 0 st = Err x st'"
    by (auto simp: flush_def elim!: bind_r_ErrE)
  from flush_loop_frame[where st=st and n=n and m=m and i=0] e a
  show "flushing st'" and p0: "prefix (queue st) (queue st')" by (simp_all add: frame_def)
  from flush_loop_throw[OF e] obtain k stk where k: "k < length (queue stk)"
    and p: "prefix (queue st) (queue stk)" and p': "prefix (queue stk) (queue st')"
    and j: "rev (jobs (trace stk)) = rev (jobs (trace st)) @ take k (queue stk)"
    and r: "run (exec n) (queue stk ! k) (log (EJob (queue stk ! k)) stk) = Err x st'"
    by auto
  have k': "k < length (queue st')" using k prefix_length[OF p'] by simp
  have n: "queue st' ! k = queue stk ! k" by (rule prefix_nth[OF p' k])
  have t: "take (Suc k) (queue st') = take (Suc k) (queue stk)"
          "take k (queue st') = take k (queue stk)"
    using p' k by (auto simp: prefix_def)
  from run_quiet[where st="log (EJob (queue stk ! k)) stk" and n=n and e="queue stk ! k"] r
  have "jobs (trace st') = queue stk ! k # jobs (trace stk)" by (simp add: quiet_def)
  then have j': "rev (jobs (trace st')) = rev (jobs (trace st)) @ take (Suc k) (queue st')"
    using j k t by (simp add: take_Suc_conv_app_nth)
  show "\<exists>k<length (queue st'). \<exists>stk.
         prefix (queue st) (queue stk) \<and> prefix (queue stk) (queue st') \<and>
         k < length (queue stk) \<and> queue stk ! k = queue st' ! k \<and>
         rev (jobs (trace stk)) = rev (jobs (trace st)) @ take k (queue st') \<and>
         run (exec n) (queue st' ! k) (log (EJob (queue st' ! k)) stk) = Err x st' \<and>
         rev (jobs (trace st')) = rev (jobs (trace st)) @ take (Suc k) (queue st')"
    using k' p p' k n j r j' t by (intro exI[of _ k] conjI exI[of _ stk]) simp_all
  from k' show "queue st' \<noteq> []" by auto
next
  assume a: "drive ops init = Some st \<and> microtasks st \<noteq> 0 \<and>
    flush (exec n) m (st\<lparr>microtasks := microtasks st - 1\<rparr>) = Err x st1 \<and>
    drive ops' st1 = Some st2"
  let ?st0 = "st\<lparr>microtasks := microtasks st - 1\<rparr>"
  from a drive_sched_ok[OF sched_ok_init, where ops=ops and st'=st]
  have m: "microtasks st = 1" and f: "flushing st" by (auto simp: sched_ok_def)
  from a have e: "flush_loop (exec n) m 0 ?st0 = Err x st1"
    by (auto simp: flush_def elim!: bind_r_ErrE)
  from flush_loop_frame[where st="?st0" and n=n and m=m and i=0] e m f have "stuck st1"
    by (simp add: frame_def stuck_def)
  from drive_stuck[OF this, where ops="ops'" and st'=st2] a
  have s: "stuck st2" and j: "jobs (trace st2) = jobs (trace st1)" by simp_all
  from s show "flushing st2" "microtasks st2 = 0" "drive_op (Microtask n') st2 = None"
    by (simp_all add: stuck_def)
  from j show "jobs (trace st2) = jobs (trace st1)" .
qed

lemma result_value_SomeD: "result_value r = Some v \<Longrightarrow> r = Ok v (the_state r)"
  by (cases r) simp_all

lemma thrown_SomeD: "thrown r = Some x \<Longrightarrow> r = Err x (the_state r)"
  by (cases r) simp_all

lemma afterI: "\<not> Option.is_none (drive ops init) \<Longrightarrow> drive ops init = Some (after ops)"
  by (cases "drive ops init") (simp_all add: after_def)

lemma drive_append:
  "drive (xs @ ys) st = (case drive xs st of Some st1 \<Rightarrow> drive ys st1 | None \<Rightarrow> None)"
  by (induction xs arbitrary: st) (simp_all split: option.splits)

lemma after_step:
  assumes "drive ops init = Some (after ops)" and "\<not> Option.is_none (drive (ops @ [a]) init)"
  shows "drive_op a (after ops) = Some (after (ops @ [a]))"
proof -
  have "drive (ops @ [a]) init = drive_op a (after ops)"
    using assms(1) by (simp add: drive_append split: option.splits)
  with afterI[OF assms(2)] show ?thesis by simp
qed

lemma drive_snoc_Some:
  "drive ops st = Some st1 \<Longrightarrow> drive_op a st1 = Some st2 \<Longrightarrow> drive (ops @ [a]) st = Some st2"
  by (simp add: drive_append)

lemma drive_single: "drive_op a st = Some st' \<Longrightarrow> drive [a] st = Some st'"
  by simp

lemma microtask_ErrD:
  assumes "drive_op (Microtask n) st = Some st'" and "microtasks st \<noteq> 0"
      and "thrown (flush (exec n) n (st\<lparr>microtasks := microtasks st - 1\<rparr>)) = Some x"
  shows "flush (exec n) n (st\<lparr>microtasks := microtasks st - 1\<rparr>) = Err x st'"
  using assms by (cases "flush (exec n) n (st\<lparr>microtasks := microtasks st - 1\<rparr>)") simp_all


theorem C4_witness:
  "queue (the_state (flush (exec 10) 10 (after [Task 10 prog_counter]))) = [] \<and>
   \<not> flushing (the_state (flush (exec 10) 10 (after [Task 10 prog_counter]))) \<and>
   flushing (after [Task 10 prog_throwing, Microtask 10]) \<and>
   queue (after [Task 10 prog_throwing, Microtask 10]) = [0, 1] \<and>
   rev (jobs (trace (after [Task 10 prog_throwing, Microtask 10]))) = [0] \<and>
   (\<exists>stk. jobs (trace stk) = [] \<and>
      run (exec 10) 0 (log (EJob 0) stk) =
        Err (VStr ''boom'') (after [Task 10 prog_throwing, Microtask 10])) \<and>
   flushing (after [Task 10 prog_throwing, Microtask 10,
                    Task 10 (Write 0 (VNum 2) (Return VUndef))]) \<and>
   microtasks (after [Task 10 prog_throwing, Microtask 10,
                      Task 10 (Write 0 (VNum 2) (Return VUndef))]) = 0 \<and>
   jobs (trace (after [Task 10 prog_throwing, Microtask 10,
                       Task 10 (Write 0 (VNum 2) (Return VUndef))])) = [0] \<and>
   drive_op (Microtask 10)
     (after [Task 10 prog_throwing, Microtask 10,
             Task 10 (Write 0 (VNum 2) (Return VUndef))]) = None"
proof -
  let ?a = "after [Task 10 prog_counter]"
  let ?a' = "the_state (flush (exec 10) 10 ?a)"
  let ?sa = "after [Task 10 prog_throwing]"
  let ?sb = "?sa\<lparr>microtasks := microtasks ?sa - 1\<rparr>"
  let ?sc = "after ([Task 10 prog_throwing] @ [Microtask 10])"
  let ?w = "Task 10 (Write 0 (VNum 2) (Return VUndef))"
  let ?sd = "after (([Task 10 prog_throwing] @ [Microtask 10]) @ [?w])"
  have ok: "flush (exec 10) 10 ?a = Ok () ?a'"
    by (rule result_value_SomeD) code_simp
  have d: "drive [Task 10 prog_throwing] init = Some ?sa"
    by (rule afterI) code_simp
  have m: "microtasks ?sa \<noteq> 0" "flushing ?sb" by code_simp+
  have d1: "drive_op (Microtask 10) ?sa = Some ?sc"
    by (rule after_step[OF d]) code_simp
  have e: "flush (exec 10) 10 ?sb = Err (VStr ''boom'') ?sc"
    by (rule microtask_ErrD[OF d1 m(1)]) code_simp
  have d2: "drive ([Task 10 prog_throwing] @ [Microtask 10]) init = Some ?sc"
    by (rule drive_snoc_Some[OF d d1])
  have d3: "drive [?w] ?sc = Some ?sd"
    by (rule drive_single, rule after_step[OF d2]) code_simp
  have j: "jobs (trace ?sb) = []" "queue ?sc = [0, 1]" by code_simp+
  have p1: "queue ?a' = [] \<and> \<not> flushing ?a'"
    by (rule C4_flush_failure[where n=10 and m=10 and st="?a" and st'="?a'",
          THEN conjunct1, rule_format]) (rule ok)
  note t2 = C4_flush_failure[where n=10 and m=10 and st="?sb" and st'="?sc"
          and x="VStr ''boom''", THEN conjunct2, THEN conjunct1, THEN mp, OF conjI[OF m(2) e]]
  have p2: "flushing ?sc \<and> queue ?sc \<noteq> [] \<and> prefix (queue ?sb) (queue ?sc)"
    by (intro conjI t2[THEN conjunct1] t2[THEN conjunct2, THEN conjunct1]
          t2[THEN conjunct2, THEN conjunct2, THEN conjunct1])
  have p3: "flushing ?sd \<and> microtasks ?sd = 0 \<and> jobs (trace ?sd) = jobs (trace ?sc) \<and>
            drive_op (Microtask 10) ?sd = None"
    by (rule C4_flush_failure[where n=10 and m=10 and st="?sa"
          and ops="[Task 10 prog_throwing]" and x="VStr ''boom''" and ?st1.0="?sc"
          and ops'="[?w]" and ?st2.0="?sd" and n'=10,
          THEN conjunct2, THEN conjunct2, rule_format])
       (intro conjI d m e d3)
  have j1: "rev (jobs (trace ?sc)) = [0]" by code_simp
  have j2: "jobs (trace ?sd) = [0]" using p3 j1 by (simp del: drive_op.simps)
  from t2[THEN conjunct2, THEN conjunct2, THEN conjunct2]
  obtain k stk where jk: "rev (jobs (trace stk)) = rev (jobs (trace ?sb)) @ take k (queue ?sc)"
    and rk: "run (exec 10) (queue ?sc ! k) (log (EJob (queue ?sc ! k)) stk) =
               Err (VStr ''boom'') ?sc"
    and jj: "rev (jobs (trace ?sc)) = rev (jobs (trace ?sb)) @ take (Suc k) (queue ?sc)"
    by blast
  have k0: "k = 0" using jj j j1 by (cases k) simp_all
  have p4: "\<exists>stk. jobs (trace stk) = [] \<and>
              run (exec 10) 0 (log (EJob 0) stk) = Err (VStr ''boom'') ?sc"
    using jk rk k0 j by (intro exI[of _ stk]) simp
  from p1 p2 p3 p4 j j1 j2 show ?thesis by (simp del: drive_op.simps)
qed


section \<open>Tracking context, cleanups and scopes (claims C7, C9 and C10)\<close>

lemma run_events_simps [simp]:
  "run_events e [] = []"
  "run_events e (ev # tr) = (if own_run e ev then ev # run_events e tr else run_events e tr)"
  "run_events e (a @ b) = run_events e a @ run_events e b"
  by (simp_all add: run_events_def)

lemma reads_simps [simp]:
  "reads e [] = []"
  "reads e (ev # tr) = (if read_by e ev then ev # reads e tr else reads e tr)"
  "reads e (a @ b) = reads e a @ reads e b"
  by (simp_all add: reads_def)

lemma run_events_schedules [simp]: "run_events e (rev (map ESchedule es)) = []"
  by (induction es) simp_all

lemma reads_schedules [simp]: "reads e (rev (map ESchedule es)) = []"
  by (induction es) simp_all

lemma set_add_set [simp]: "set (set_add x xs) = insert x (set xs)"
  by (auto simp: set_add_def)

lemma vc_kept: "vc (\<lambda>st. e0 < neffects st) (kept e0) (\<lambda>e st. e \<noteq> e0)"
  unfolding vc_defs
  apply (intro conjI allI impI)
  apply (simp_all add: kept_def store_trace getter_subs getter_deps run_enter_subs
           dispose_exit_subs push_cleanup_cleanups split: option.splits)
  apply auto
  apply (drule_tac x=s in spec, simp split: if_splits)+
  done

lemma exec_kept: "e < neffects st \<Longrightarrow> holds (kept e st) (exec n p st)"
  using sat_exec[OF vc_kept, of e n] by (simp add: sat_def)



lemma result_value_finally [simp]: "result_value (finally_r r g) = result_value r"
  by (cases r) simp_all

lemma thrown_finally [simp]: "thrown (finally_r r g) = thrown r"
  by (cases r) simp_all

lemma ignore_kept: "e < neffects st \<Longrightarrow> holds (kept e st) (ignore (exec n) fn st)"
  by (rule sat_ignore[OF vc_kept sat_exec[OF vc_kept]])

lemma scope_kept: "e < neffects st \<Longrightarrow> holds (kept e st) (scope (exec n) fn st)"
  by (rule sat_scope[OF vc_kept sat_exec[OF vc_kept]])


text \<open>
  Claim C10.  When the callback of \<open>scope\<close> has returned, the tracking context is null,
  so \<open>scope\<close> does what it would do without lines 115-119: it runs the callback with
  the context cleared and restores the context.  The cleanup list of an effect that
  exists when \<open>scope\<close> is called, the enclosing one included, is the same afterwards.
\<close>

theorem C10_scope_branch_dead:
  "holds (\<lambda>st2. currentEffect st2 = None) (exec n (fn (nscopes st)) (scope_enter st)) \<and>
   scope (exec n) fn st =
     finally_r (exec n (fn (nscopes st)) (scope_enter st))
       (\<lambda>st3. st3\<lparr>currentEffect := currentEffect st\<rparr>) \<and>
   (e < neffects st \<longrightarrow>
      holds (\<lambda>st'. cleanups (effects st' e) = cleanups (effects st e)) (scope (exec n) fn st))"
proof (intro conjI impI)
  have f: "holds (frame (scope_enter st)) (exec n (fn (nscopes st)) (scope_enter st))"
    by (rule exec_frame)
  then show a: "holds (\<lambda>st2. currentEffect st2 = None) (exec n (fn (nscopes st)) (scope_enter st))"
    by (rule holds_mono) (simp add: frame_def)
  then show "scope (exec n) fn st =
     finally_r (exec n (fn (nscopes st)) (scope_enter st))
       (\<lambda>st3. st3\<lparr>currentEffect := currentEffect st\<rparr>)"
    by (cases "exec n (fn (nscopes st)) (scope_enter st)")
       (simp_all add: scope_def Let_def scope_push_def)
next
  assume "e < neffects st"
  then have "holds (kept e st) (scope (exec n) fn st)" by (rule scope_kept)
  then show "holds (\<lambda>st'. cleanups (effects st' e) = cleanups (effects st e)) (scope (exec n) fn st)"
    by (rule holds_mono) (simp add: kept_def)
qed

lemma call_all_cleanups:
  "e < neffects st \<Longrightarrow>
   (case call_all (exec n) (ECleanup e) fs st of
      Ok u st1 \<Rightarrow>
        same_effect e st st1 \<and>
        rev (run_events e (trace st1)) = rev (run_events e (trace st)) @ map (ECleanup e) fs
    | Err x st1 \<Rightarrow>
        same_effect e st st1 \<and>
        (\<exists>k<length fs. rev (run_events e (trace st1)) =
                          rev (run_events e (trace st)) @ map (ECleanup e) (take (Suc k) fs))
    | Diverge \<Rightarrow> True)"
proof (induction fs arbitrary: st)
  case Nil
  then show ?case by (simp add: same_effect_def)
next
  case (Cons f fs)
  let ?st0 = "log (ECleanup e f) st"
  have e0: "e < neffects ?st0" using Cons.prems by simp
  have h: "holds (kept e ?st0) (exec n (funs st f VUndef) ?st0)" by (rule exec_kept[OF e0])
  show ?case
  proof (cases "exec n (funs st f VUndef) ?st0")
    case Diverge
    then show ?thesis by simp
  next
    case (Err x st1)
    with h have k: "kept e ?st0 st1" by simp
    then have "rev (run_events e (trace st1)) =
               rev (run_events e (trace st)) @ map (ECleanup e) (take (Suc 0) (f # fs))"
      by (simp add: kept_def)
    then have "\<exists>k<length (f # fs). rev (run_events e (trace st1)) =
               rev (run_events e (trace st)) @ map (ECleanup e) (take (Suc k) (f # fs))"
      by (intro exI[of _ 0]) simp
    moreover have "same_effect e st st1" using k by (simp add: kept_def same_effect_def)
    ultimately show ?thesis using Err by simp
  next
    case (Ok v st1)
    with h have k: "kept e ?st0 st1" by simp
    then have k1: "same_effect e st st1" by (simp add: kept_def same_effect_def)
    have e1: "e < neffects st1" using k Cons.prems by (simp add: kept_def)
    have r1: "rev (run_events e (trace st1)) = rev (run_events e (trace st)) @ [ECleanup e f]"
      using k by (simp add: kept_def)
    have step: "call_all (exec n) (ECleanup e) (f # fs) st = call_all (exec n) (ECleanup e) fs st1"
      using Ok by simp
    show ?thesis
    proof (cases "call_all (exec n) (ECleanup e) fs st1")
      case Diverge
      then show ?thesis using step by simp
    next
      case (Ok u st2)
      with Cons.IH[OF e1] have k2: "same_effect e st1 st2"
        and r2: "rev (run_events e (trace st2)) =
                 rev (run_events e (trace st1)) @ map (ECleanup e) fs"
        by simp_all
      have "same_effect e st st2" using k1 k2 by (auto simp: same_effect_def)
      then show ?thesis using step Ok r1 r2 by simp
    next
      case (Err x st2)
      with Cons.IH[OF e1] obtain k where k2: "same_effect e st1 st2" and kl: "k < length fs"
        and r2: "rev (run_events e (trace st2)) =
                 rev (run_events e (trace st1)) @ map (ECleanup e) (take (Suc k) fs)"
        by auto
      have k3: "same_effect e st st2" using k1 k2 by (auto simp: same_effect_def)
      have "rev (run_events e (trace st2)) =
            rev (run_events e (trace st)) @ map (ECleanup e) (take (Suc (Suc k)) (f # fs))"
        using r1 r2 by simp
      then have "\<exists>k<length (f # fs). rev (run_events e (trace st2)) =
            rev (run_events e (trace st)) @ map (ECleanup e) (take (Suc k) (f # fs))"
        using kl by (intro exI[of _ "Suc k"]) simp
      then show ?thesis using step Err k3 by simp
    qed
  qed
qed

text \<open>
  Claim C7, amended.  The discipline is that of one invocation of \<open>run\<close>; calls of the
  same cleanups by the disposer are not counted.  For an effect \<open>e\<close> that exists: client
  code and the runs of other effects leave the cleanup list of \<open>e\<close> as it is.  An
  invocation of the \<open>run\<close> of \<open>e\<close> calls the cleanups of the list in order, each once, then
  empties the list, and only then calls the body; nothing the cleanups or the body do
  calls a cleanup of \<open>e\<close> through \<open>run\<close> or starts the body again.  When the body returns,
  the list holds the returned value if it is a function and nothing otherwise.  When a
  cleanup throws, \<open>run\<close> ends with that exception: the cleanups behind it and the body are
  not called and the list is kept.
\<close>

theorem C7_cleanup_discipline:
  "e < neffects st \<longrightarrow>
   holds (\<lambda>st'. cleanups (effects st' e) = cleanups (effects st e)) (exec n p st) \<and>
   (e' \<noteq> e \<longrightarrow>
      holds (\<lambda>st'. cleanups (effects st' e) = cleanups (effects st e)) (run (exec n) e' st)) \<and>
   (case call_all (exec n) (ECleanup e) (cleanups (effects st e)) (log (ERun e) st) of
      Ok u st1 \<Rightarrow>
        cleanups (effects (run_enter e st1) e) = [] \<and>
        (case exec n (body (effects st e)) (run_enter e st1) of
           Ok v st2 \<Rightarrow>
             run (exec n) e st = Ok () ((push_cleanup e v st2)\<lparr>currentEffect := currentEffect st\<rparr>) \<and>
             rev (run_events e (trace st2)) =
               rev (run_events e (trace st)) @ [ERun e] @
               map (ECleanup e) (cleanups (effects st e)) @ [EBody e] \<and>
             cleanups (effects (push_cleanup e v st2) e) = (case v of VFun f \<Rightarrow> [f] | _ \<Rightarrow> [])
         | Err x st2 \<Rightarrow>
             run (exec n) e st = Err x (st2\<lparr>currentEffect := currentEffect st\<rparr>) \<and>
             rev (run_events e (trace st2)) =
               rev (run_events e (trace st)) @ [ERun e] @
               map (ECleanup e) (cleanups (effects st e)) @ [EBody e] \<and>
             cleanups (effects st2 e) = []
         | Diverge \<Rightarrow> run (exec n) e st = Diverge)
    | Err x st1 \<Rightarrow>
        run (exec n) e st = Err x st1 \<and>
        cleanups (effects st1 e) = cleanups (effects st e) \<and>
        (\<exists>k<length (cleanups (effects st e)).
           rev (run_events e (trace st1)) =
             rev (run_events e (trace st)) @ [ERun e] @
             map (ECleanup e) (take (Suc k) (cleanups (effects st e))))
    | Diverge \<Rightarrow> run (exec n) e st = Diverge)"
proof (intro impI conjI)
  assume e: "e < neffects st"
  show "holds (\<lambda>st'. cleanups (effects st' e) = cleanups (effects st e)) (exec n p st)"
    by (rule holds_mono[OF exec_kept[OF e]]) (simp add: kept_def)
next
  assume e: "e < neffects st" and ne: "e' \<noteq> e"
  have "holds (kept e st) (run (exec n) e' st)"
    by (rule sat_run[OF vc_kept sat_exec[OF vc_kept]]) (simp_all add: e ne)
  then show "holds (\<lambda>st'. cleanups (effects st' e) = cleanups (effects st e)) (run (exec n) e' st)"
    by (rule holds_mono) (simp add: kept_def)
next
  assume e: "e < neffects st"
  let ?st0 = "log (ERun e) st"
  let ?fs = "cleanups (effects st e)"
  have e0: "e < neffects ?st0" using e by simp
  note c = call_all_cleanups[OF e0, where n=n and fs="?fs"]
  show "case call_all (exec n) (ECleanup e) ?fs ?st0 of
      Ok u st1 \<Rightarrow>
        cleanups (effects (run_enter e st1) e) = [] \<and>
        (case exec n (body (effects st e)) (run_enter e st1) of
           Ok v st2 \<Rightarrow>
             run (exec n) e st = Ok () ((push_cleanup e v st2)\<lparr>currentEffect := currentEffect st\<rparr>) \<and>
             rev (run_events e (trace st2)) =
               rev (run_events e (trace st)) @ [ERun e] @ map (ECleanup e) ?fs @ [EBody e] \<and>
             cleanups (effects (push_cleanup e v st2) e) = (case v of VFun f \<Rightarrow> [f] | _ \<Rightarrow> [])
         | Err x st2 \<Rightarrow>
             run (exec n) e st = Err x (st2\<lparr>currentEffect := currentEffect st\<rparr>) \<and>
             rev (run_events e (trace st2)) =
               rev (run_events e (trace st)) @ [ERun e] @ map (ECleanup e) ?fs @ [EBody e] \<and>
             cleanups (effects st2 e) = []
         | Diverge \<Rightarrow> run (exec n) e st = Diverge)
    | Err x st1 \<Rightarrow>
        run (exec n) e st = Err x st1 \<and>
        cleanups (effects st1 e) = ?fs \<and>
        (\<exists>k<length ?fs.
           rev (run_events e (trace st1)) =
             rev (run_events e (trace st)) @ [ERun e] @ map (ECleanup e) (take (Suc k) ?fs))
    | Diverge \<Rightarrow> run (exec n) e st = Diverge"
  proof (cases "call_all (exec n) (ECleanup e) ?fs ?st0")
    case Diverge
    then show ?thesis by (simp add: run_def Let_def)
  next
    case (Err x st1)
    with c show ?thesis by (auto simp: run_def Let_def same_effect_def)
  next
    case (Ok u st1)
    with c have k1: "same_effect e ?st0 st1"
      and r1: "rev (run_events e (trace st1)) =
               rev (run_events e (trace ?st0)) @ map (ECleanup e) ?fs"
      by simp_all
    have b: "body (effects st1 e) = body (effects st e)"
      and c1: "currentEffect st1 = currentEffect st"
      and e1: "e < neffects st1"
      using k1 e by (simp_all add: same_effect_def)
    let ?st5 = "run_enter e st1"
    have e5: "e < neffects ?st5" using e1 by simp
    have h: "holds (kept e ?st5) (exec n (body (effects st e)) ?st5)" by (rule exec_kept[OF e5])
    have r5: "rev (run_events e (trace ?st5)) =
              rev (run_events e (trace st)) @ [ERun e] @ map (ECleanup e) ?fs @ [EBody e]"
      using r1 by simp
    show ?thesis
    proof (cases "exec n (body (effects st e)) ?st5")
      case Diverge
      then show ?thesis using Ok b by (simp add: run_def Let_def)
    next
      case (Err x st2)
      with h have "kept e ?st5 st2" by simp
      then show ?thesis using Ok Err b c1 r5 by (simp add: run_def Let_def kept_def)
    next
      case (Ok v st2)
      with h have "kept e ?st5 st2" by simp
      then show ?thesis
        using \<open>call_all (exec n) (ECleanup e) ?fs ?st0 = Ok u st1\<close> Ok b c1 r5
        by (simp add: run_def Let_def kept_def push_cleanup_cleanups split: val.splits)
    qed
  qed
qed

text \<open>
  The claim as stated fails in two ways.  The disposer calls the cleanups and leaves them
  in the list, so the run that was in the queue calls the cleanup of the first run a
  second time before the second body starts.  And a cleanup that throws ends the run
  before the list is emptied: the list is not cleared after the cleanup was executed, and
  the body of that run does not start.
\<close>

theorem C7_counterexample:
  "rev (trace (after [Task 10 prog_cleanup_dispose, Microtask 10])) =
     [ERun 0, EBody 0, ERead (Some 0) 0, ESchedule 0, EDisposeCleanup 0 0, EDisposed 0,
      EJob 0, ERun 0, ECleanup 0 0, EBody 0, ERead (Some 0) 0] \<and>
   cleanups (effects (after [Task 10 prog_cleanup_dispose]) 0) = [0] \<and>
   rev (trace (after [Task 10 prog_cleanup_throws, Microtask 10])) =
     [ERun 0, EBody 0, ERead (Some 0) 0, ESchedule 0, EJob 0, ERun 0, ECleanup 0 0] \<and>
   cleanups (effects (after [Task 10 prog_cleanup_throws, Microtask 10]) 0) = [0]"
  by code_simp

lemma holds_valueD: "holds Q r \<Longrightarrow> result_value r = Some v \<Longrightarrow> Q (the_state r)"
  by (cases r) simp_all


theorem C7_witness:
  "cleanups (effects (after [Task 10 prog_cleanup]) 0) = [0] \<and>
   rev (run_events 0 (trace (after [Task 10 prog_cleanup]))) = [ERun 0, EBody 0] \<and>
   result_value (run (exec 10) 0 (after [Task 10 prog_cleanup])) = Some () \<and>
   rev (run_events 0 (trace (the_state (run (exec 10) 0 (after [Task 10 prog_cleanup]))))) =
     [ERun 0, EBody 0, ERun 0, ECleanup 0 0, EBody 0] \<and>
   cleanups (effects (the_state (run (exec 10) 0 (after [Task 10 prog_cleanup]))) 0) = [0]"
proof -
  let ?S = "after [Task 10 prog_cleanup]"
  let ?c = "call_all (exec 10) (ECleanup 0) (cleanups (effects ?S 0)) (log (ERun 0) ?S)"
  let ?b = "exec 10 (body (effects ?S 0)) (run_enter 0 (the_state ?c))"
  have h: "0 < neffects ?S" by code_simp
  have c: "?c = Ok () (the_state ?c)" by (rule result_value_SomeD) code_simp
  have b: "?b = Ok (VFun 0) (the_state ?b)" by (rule result_value_SomeD) code_simp
  have f: "cleanups (effects ?S 0) = [0]" "rev (run_events 0 (trace ?S)) = [ERun 0, EBody 0]"
    by code_simp+
  from C7_cleanup_discipline[where e=0 and st="?S" and n=10, THEN mp, OF h,
         THEN conjunct2, THEN conjunct2]
  have r: "run (exec 10) 0 ?S =
           Ok () ((push_cleanup 0 (VFun 0) (the_state ?b))\<lparr>currentEffect := currentEffect ?S\<rparr>) \<and>
         rev (run_events 0 (trace (the_state ?b))) =
           rev (run_events 0 (trace ?S)) @ [ERun 0] @
           map (ECleanup 0) (cleanups (effects ?S 0)) @ [EBody 0] \<and>
         cleanups (effects (push_cleanup 0 (VFun 0) (the_state ?b)) 0) = [0]"
    by (subst (asm) c, simp only: result.case, subst (asm) b, simp only: result.case val.case)
  then show ?thesis using f by simp
qed


theorem C10_witness:
  "currentEffect (the_state (exec 5 (NewEffect (Read 1 (\<lambda>_. Return VUndef)) (\<lambda>d. Return VUndef))
       (scope_enter st_inside))) = None \<and>
   scope (exec 5) (\<lambda>sc. NewEffect (Read 1 (\<lambda>_. Return VUndef)) (\<lambda>d. Return VUndef)) st_inside =
     finally_r (exec 5 (NewEffect (Read 1 (\<lambda>_. Return VUndef)) (\<lambda>d. Return VUndef))
                  (scope_enter st_inside))
       (\<lambda>st3. st3\<lparr>currentEffect := currentEffect st_inside\<rparr>) \<and>
   cleanups (effects (the_state
       (scope (exec 5) (\<lambda>sc. NewEffect (Read 1 (\<lambda>_. Return VUndef)) (\<lambda>d. Return VUndef))
          st_inside)) 0) = [] \<and>
   scopes (the_state
       (scope (exec 5) (\<lambda>sc. NewEffect (Read 1 (\<lambda>_. Return VUndef)) (\<lambda>d. Return VUndef))
          st_inside)) 0 = 0"
proof -
  let ?fn = "\<lambda>sc::scid. NewEffect (Read 1 (\<lambda>_. Return VUndef)) (\<lambda>d. Return VUndef)"
  note t = C10_scope_branch_dead[where n=5 and fn="?fn" and st=st_inside and e=0]
  have v: "result_value (exec 5 (?fn (nscopes st_inside)) (scope_enter st_inside)) = Some VUndef"
    by code_simp
  have v2: "result_value (scope (exec 5) ?fn st_inside) = Some VUndef" by code_simp
  have e: "0 < neffects st_inside" by code_simp
  have i: "cleanups (effects st_inside 0) = []" by code_simp
  have 1: "currentEffect (the_state (exec 5 (?fn (nscopes st_inside)) (scope_enter st_inside))) = None"
    by (rule holds_valueD[OF t[THEN conjunct1] v])
  have 3: "cleanups (effects (the_state (scope (exec 5) ?fn st_inside)) 0) = []"
    using holds_valueD[OF t[THEN conjunct2, THEN conjunct2, THEN mp, OF e] v2] i by simp
  have 4: "scopes (the_state (scope (exec 5) ?fn st_inside)) 0 = 0" by code_simp
  from 1 t[THEN conjunct2, THEN conjunct1] 3 4 show ?thesis by simp
qed


section \<open>The dependency graph (claim C1)\<close>

lemma subscribed_read: "subscribed e s tr \<Longrightarrow> ERead (Some e) s \<in> set tr"
  by (induction tr) (auto split: if_splits)

lemma depends_read: "depends e s tr \<Longrightarrow> ERead (Some e) s \<in> set tr"
  by (induction tr) (auto split: if_splits)

lemma subscribed_depends: "subscribed e s tr \<Longrightarrow> depends e s tr"
  by (induction tr) (auto split: if_splits)

lemma subscribed_schedules [simp]:
  "subscribed e s (rev (map ESchedule es) @ tr) = subscribed e s tr"
  by (induction es rule: rev_induct) simp_all

lemma depends_schedules [simp]:
  "depends e s (rev (map ESchedule es) @ tr) = depends e s tr"
  by (induction es rule: rev_induct) simp_all

lemma in_set_schedules [simp]: "ERead c s \<in> set (map ESchedule es) \<longleftrightarrow> False"
  by auto

lemma ids_ok_subscribed:
  "ids_ok st \<Longrightarrow> subscribed e s (trace st) \<Longrightarrow> e < neffects st \<and> s < nsignals st"
  using subscribed_read[of e s "trace st"] by (auto simp: ids_ok_def)

lemma ids_ok_depends:
  "ids_ok st \<Longrightarrow> depends e s (trace st) \<Longrightarrow> e < neffects st \<and> s < nsignals st"
  using depends_read[of e s "trace st"] by (auto simp: ids_ok_def)

lemma edges_inv_subs: "edges_inv st \<Longrightarrow> e \<in> set (subs (signals st s)) \<Longrightarrow> e < neffects st"
  using ids_ok_subscribed[of st e s] by (simp add: edges_inv_def edges_exact_def)

lemma edges_inv_I1:
  "edges_inv st \<Longrightarrow> e \<in> set (subs (signals st s)) \<Longrightarrow> s \<in> set (deps (effects st e))"
  by (auto simp: edges_inv_def edges_exact_def dest: subscribed_depends)

lemma vc_edges_order: "vc_order edges_inv edges_rel (\<lambda>e st. e < neffects st)"
  unfolding vc_order_def by (auto simp: edges_rel_def)

lemma edges_signal: "edges_inv st \<Longrightarrow> edges_inv (snd (signal v st))"
proof -
  assume a: "edges_inv st"
  have n: "\<And>e. \<not> subscribed e (nsignals st) (trace st)"
    using a ids_ok_subscribed[of st _ "nsignals st"] by (auto simp: edges_inv_def)
  show ?thesis
    using a n unfolding edges_inv_def edges_exact_def ids_ok_def
    by (auto dest: less_SucI)
qed

lemma edges_getter: "edges_inv st \<Longrightarrow> s < nsignals st \<Longrightarrow> edges_inv (snd (getter s st))"
  unfolding edges_inv_def edges_exact_def ids_ok_def
  by (auto simp: getter_subs getter_deps split: option.splits)

lemma edges_store: "edges_inv st \<Longrightarrow> edges_inv (store s v st)"
proof -
  assume a: "edges_inv st"
  have q: "\<forall>e\<in>set (queue (store s v st)). e < neffects st"
    using a edges_inv_subs[OF a] by (auto simp: store_queue_set edges_inv_def ids_ok_def split: if_splits)
  show ?thesis
    using a q unfolding edges_inv_def edges_exact_def ids_ok_def
    by (auto simp: store_trace)
qed

lemma edges_new_effect: "edges_inv st \<Longrightarrow> edges_inv (new_effect fn st)"
proof -
  assume a: "edges_inv st"
  have n: "\<And>s. \<not> depends (neffects st) s (trace st)"
    using a ids_ok_depends[of st "neffects st"] by (auto simp: edges_inv_def)
  show ?thesis
    using a n unfolding edges_inv_def edges_exact_def ids_ok_def
    by (auto dest: less_SucI)
qed

lemma edges_log:
  "edges_inv st \<Longrightarrow> (\<And>c s. ev \<noteq> ERead c s) \<Longrightarrow> (\<And>e. ev \<noteq> EBody e) \<Longrightarrow>
   (\<And>e. ev \<noteq> EDisposed e) \<Longrightarrow> edges_inv (log ev st)"
  unfolding edges_inv_def edges_exact_def ids_ok_def by auto

lemma edges_run_enter: "edges_inv st \<Longrightarrow> e < neffects st \<Longrightarrow> edges_inv (run_enter e st)"
proof -
  assume a: "edges_inv st" and e: "e < neffects st"
  have i1: "\<And>s. e \<in> set (subs (signals st s)) \<Longrightarrow> s \<in> set (deps (effects st e))"
    by (rule edges_inv_I1[OF a])
  show ?thesis
    using a e i1 unfolding edges_inv_def edges_exact_def ids_ok_def
    by (auto simp: run_enter_subs)
qed

lemma edges_dispose_exit: "edges_inv st \<Longrightarrow> edges_inv (dispose_exit e st)"
proof -
  assume a: "edges_inv st"
  have i1: "\<And>s. e \<in> set (subs (signals st s)) \<Longrightarrow> s \<in> set (deps (effects st e))"
    by (rule edges_inv_I1[OF a])
  show ?thesis
    using a i1 unfolding edges_inv_def edges_exact_def ids_ok_def
    by (auto simp: dispose_exit_subs)
qed

lemma edges_ctx:
  "edges_inv st' \<Longrightarrow> (\<And>e. c = Some e \<Longrightarrow> e < neffects st') \<Longrightarrow>
   edges_inv (st'\<lparr>currentEffect := c\<rparr>)"
  unfolding edges_inv_def edges_exact_def ids_ok_def by auto

lemma edges_push_cleanup: "edges_inv st \<Longrightarrow> edges_inv (push_cleanup e v st)"
  unfolding edges_inv_def edges_exact_def ids_ok_def by auto

lemma edges_misc:
  "edges_inv st \<Longrightarrow> edges_inv (new_fun c st)"
  "edges_inv st \<Longrightarrow> edges_inv (scope_enter st)"
  "edges_inv st \<Longrightarrow> edges_inv (scope_push sc st)"
  "edges_inv st \<Longrightarrow> edges_inv (scope_clear sc st)"
  unfolding edges_inv_def edges_exact_def ids_ok_def by auto

lemma edges_inv_ctx: "edges_inv st \<Longrightarrow> currentEffect st = Some e \<Longrightarrow> e < neffects st"
  by (simp add: edges_inv_def ids_ok_def)

lemma vc_edges: "vc edges_inv edges_rel (\<lambda>e st. e < neffects st)"
  unfolding vc_def
proof (intro conjI)
  show "vc_order edges_inv edges_rel (\<lambda>e st. e < neffects st)" by (rule vc_edges_order)
  show "vc_signal edges_inv edges_rel"
    unfolding vc_signal_def edges_rel_def
    by (simp add: edges_signal edges_getter edges_store edges_misc)
  show "vc_effect edges_inv edges_rel (\<lambda>e st. e < neffects st)"
    unfolding vc_effect_def edges_rel_def
    by (auto simp: edges_new_effect edges_log edges_run_enter edges_dispose_exit
             intro!: edges_ctx edges_push_cleanup dest: edges_inv_ctx)
  show "vc_scope edges_inv edges_rel"
    unfolding vc_scope_def edges_rel_def
    by (auto simp: edges_log edges_misc intro!: edges_ctx dest: edges_inv_ctx)
qed


lemma exec_edges: "edges_inv st \<Longrightarrow> holds edges_inv (exec n p st)"
proof -
  assume "edges_inv st"
  then have "holds (edges_rel st) (exec n p st)"
    using sat_exec[OF vc_edges, of n] by (simp add: sat_def)
  then show ?thesis by (rule holds_mono) (simp add: edges_rel_def)
qed


lemma flush_loop_edges: "edges_inv st \<Longrightarrow> holds edges_inv (flush_loop (exec n) m i st)"
proof -
  assume a: "edges_inv st"
  have "holds (edges_rel st) (flush_loop (exec n) m i st)"
  proof (rule sat_flush_loop[OF vc_edges sat_exec[OF vc_edges] _ a])
    fix st i assume "edges_inv st" "i < length (queue st)"
    then show "edges_rel st (log (EJob (queue st ! i)) st) \<and>
               queue st ! i < neffects (log (EJob (queue st ! i)) st)"
      by (auto simp: edges_rel_def edges_log) (simp add: edges_inv_def ids_ok_def)
  qed
  then show ?thesis by (rule holds_mono) (simp add: edges_rel_def)
qed

lemma edges_inv_init: "edges_inv init"
  by (simp add: edges_inv_def edges_exact_def ids_ok_def init_def)

lemma edges_inv_fields:
  "edges_inv st \<Longrightarrow> edges_inv (st\<lparr>microtasks := m\<rparr>)"
  "edges_inv st \<Longrightarrow> edges_inv (st\<lparr>queue := [], flushing := b\<rparr>)"
  by (simp_all add: edges_inv_def edges_exact_def ids_ok_def)

lemma drive_op_edges:
  assumes "edges_inv st" and "drive_op a st = Some st'"
  shows "edges_inv st'"
proof (cases a)
  case (Task n p)
  with assms exec_edges[OF assms(1), of n p] show ?thesis
    by (cases "exec n p st") auto
next
  case (Microtask n)
  let ?st0 = "st\<lparr>microtasks := microtasks st - 1\<rparr>"
  have "holds edges_inv (flush_loop (exec n) n 0 ?st0)"
    by (rule flush_loop_edges) (rule edges_inv_fields(1)[OF assms(1)])
  with assms Microtask show ?thesis
    by (cases "flush_loop (exec n) n 0 ?st0")
       (auto simp: flush_def edges_inv_fields split: if_splits)
qed

lemma drive_edges: "edges_inv st \<Longrightarrow> drive ops st = Some st' \<Longrightarrow> edges_inv st'"
proof (induction ops arbitrary: st)
  case Nil
  then show ?case by simp
next
  case (Cons a ops)
  then show ?case by (auto split: option.splits dest: drive_op_edges)
qed



lemma frame_traceD: "frame st st' \<Longrightarrow> \<exists>evs. trace st' = evs @ trace st"
  by (simp add: frame_def)






section \<open>Disposal (claim C5)\<close>

lemma wake_events_simps [simp]:
  "wake_events e [] = []"
  "wake_events e (ev # tr) = (if wakes e ev then ev # wake_events e tr else wake_events e tr)"
  "wake_events e (a @ b) = wake_events e a @ wake_events e b"
  by (simp_all add: wake_events_def)

lemma wake_events_schedules: "e \<notin> set es \<Longrightarrow> wake_events e (rev (map ESchedule es)) = []"
  by (induction es) simp_all

lemma vc_silent: "vc (inert e0) (silent e0) (\<lambda>e st. e \<noteq> e0)"
  unfolding vc_defs
  apply (intro conjI allI impI)
  apply (simp_all add: silent_def inert_def store_trace store_queue_set getter_subs
           run_enter_subs dispose_exit_subs wake_events_schedules split: option.splits)
  apply auto
  done

lemma exec_silent: "inert e st \<Longrightarrow> holds (silent e st) (exec n p st)"
  using sat_exec[OF vc_silent, of e n] by (simp add: sat_def)

lemma flush_loop_silent: "inert e st \<Longrightarrow> holds (silent e st) (flush_loop (exec n) m i st)"
proof (rule sat_flush_loop[OF vc_silent sat_exec[OF vc_silent]])
  fix st i assume "inert e st" "i < length (queue st)"
  then show "silent e st (log (EJob (queue st ! i)) st) \<and> queue st ! i \<noteq> e"
    by (auto simp: silent_def inert_def)
qed

lemma silent_trans: "silent e st st1 \<Longrightarrow> silent e st1 st2 \<Longrightarrow> silent e st st2"
  by (simp add: silent_def)

lemma drive_op_silent:
  assumes "inert e st" and "drive_op a st = Some st'"
  shows "silent e st st'"
proof (cases a)
  case (Task n p)
  with assms exec_silent[OF assms(1), of n p] show ?thesis
    by (cases "exec n p st") auto
next
  case (Microtask n)
  let ?st0 = "st\<lparr>microtasks := microtasks st - 1\<rparr>"
  have i0: "inert e ?st0" using assms(1) by (simp add: inert_def)
  have s0: "silent e st ?st0" using assms(1) by (simp add: silent_def inert_def)
  have "holds (silent e ?st0) (flush_loop (exec n) n 0 ?st0)" by (rule flush_loop_silent[OF i0])
  with assms Microtask s0 show ?thesis
    by (cases "flush_loop (exec n) n 0 ?st0")
       (auto simp: flush_def silent_def inert_def split: if_splits)
qed

lemma drive_silent: "inert e st \<Longrightarrow> drive ops st = Some st' \<Longrightarrow> silent e st st'"
proof (induction ops arbitrary: st)
  case Nil
  then show ?case by (simp add: silent_def)
next
  case (Cons a ops)
  then obtain st1 where 1: "drive_op a st = Some st1" and 2: "drive ops st1 = Some st'"
    by (auto split: option.splits)
  have s1: "silent e st st1" by (rule drive_op_silent[OF Cons.prems(1) 1])
  then have "inert e st1" by (simp add: silent_def)
  from silent_trans[OF s1 Cons.IH[OF this 2]] show ?case .
qed

text \<open>Every function of the list is called.\<close>

lemma call_all_tags:
  "call_all (exec n) tag fs st = Ok u st' \<Longrightarrow>
   \<exists>evs. trace st' = evs @ trace st \<and> (\<forall>f\<in>set fs. tag f \<in> set evs)"
proof (induction fs arbitrary: st)
  case Nil
  then show ?case by simp
next
  case (Cons f fs)
  let ?st0 = "log (tag f) st"
  from Cons.prems obtain v st1 where 1: "exec n (funs st f VUndef) ?st0 = Ok v st1"
    and 2: "call_all (exec n) tag fs st1 = Ok u st'"
    by (auto elim: bind_r_OkE)
  from exec_frame[where st="?st0" and n=n and p="funs st f VUndef"] 1
  obtain ev1 where t1: "trace st1 = ev1 @ tag f # trace st" by (auto simp: frame_def)
  from Cons.IH[OF 2] obtain ev2 where t2: "trace st' = ev2 @ trace st1"
    and a2: "\<forall>f\<in>set fs. tag f \<in> set ev2" by blast
  have "trace st' = (ev2 @ ev1 @ [tag f]) @ trace st" using t1 t2 by simp
  moreover have "\<forall>g\<in>set (f # fs). tag g \<in> set (ev2 @ ev1 @ [tag f])" using a2 by auto
  ultimately show ?case by blast
qed

lemma disposer_edges: "edges_inv st \<Longrightarrow> holds edges_inv (disposer (exec n) e st)"
proof -
  assume "edges_inv st"
  then have "holds (edges_rel st) (disposer (exec n) e st)"
    by (rule sat_disposer[OF vc_edges sat_exec[OF vc_edges]])
  then show ?thesis by (rule holds_mono) (simp add: edges_rel_def)
qed

lemma disposer_frame: "holds (frame st) (disposer (exec n) e st)"
  by (rule sat_disposer[OF vc_frame sat_exec[OF vc_frame]]) simp

text \<open>
  Claim C5, amended.  When the disposer returns, the effect is in the subscriber set of no
  signal, and every pending cleanup has been called.  If moreover no run of the effect is
  left in the queue and the effect is not the running one, the effect is inert; and from
  an inert effect no program and no sequence of tasks and flushes schedules, calls or
  starts its run again.
\<close>

theorem C5_disposal:
  "(edges_inv st \<and> disposer (exec n) e st = Ok () st' \<longrightarrow>
      (\<forall>s. e \<notin> set (subs (signals st' s))) \<and>
      (\<forall>f\<in>set (cleanups (effects st e)).
         EDisposeCleanup e f \<in> set (take (length (trace st') - length (trace st)) (trace st'))) \<and>
      (e < neffects st \<and> currentEffect st \<noteq> Some e \<and> e \<notin> set (queue st') \<longrightarrow> inert e st')) \<and>
   (inert e st \<longrightarrow>
      holds (\<lambda>st'. inert e st' \<and> wake_events e (trace st') = wake_events e (trace st))
        (exec n p st)) \<and>
   (inert e st \<and> drive ops st = Some st2 \<longrightarrow>
      inert e st2 \<and> wake_events e (trace st2) = wake_events e (trace st))"
proof (intro conjI impI)
  assume a: "edges_inv st \<and> disposer (exec n) e st = Ok () st'"
  then obtain u st1 where
    1: "call_all (exec n) (EDisposeCleanup e) (cleanups (effects st e)) st = Ok u st1"
    and 2: "st' = dispose_exit e st1"
    by (auto simp: disposer_def elim: bind_r_OkE)
  from disposer_edges[of st n e] a have "edges_inv st'" by simp
  then have "\<And>s. (e \<in> set (subs (signals st' s))) = subscribed e s (trace st')"
    by (simp add: edges_inv_def edges_exact_def)
  then show u: "\<forall>s. e \<notin> set (subs (signals st' s))" using 2 by simp
  from call_all_tags[OF 1] obtain evs where t: "trace st1 = evs @ trace st"
    and c: "\<forall>f\<in>set (cleanups (effects st e)). EDisposeCleanup e f \<in> set evs" by blast
  have "take (length (trace st') - length (trace st)) (trace st') = EDisposed e # evs"
    using 2 t by simp
  then show "\<forall>f\<in>set (cleanups (effects st e)).
         EDisposeCleanup e f \<in> set (take (length (trace st') - length (trace st)) (trace st'))"
    using c by simp
  assume b: "e < neffects st \<and> currentEffect st \<noteq> Some e \<and> e \<notin> set (queue st')"
  from disposer_frame[of st n e] a have "frame st st'" by simp
  then show "inert e st'" using b u by (simp add: inert_def frame_def)
next
  assume "inert e st"
  then have "holds (silent e st) (exec n p st)" by (rule exec_silent)
  then show "holds (\<lambda>st'. inert e st' \<and> wake_events e (trace st') = wake_events e (trace st))
               (exec n p st)"
    by (rule holds_mono) (simp add: silent_def)
next
  assume "inert e st \<and> drive ops st = Some st2"
  then have "silent e st st2" using drive_silent by blast
  then show "inert e st2" "wake_events e (trace st2) = wake_events e (trace st)"
    by (simp_all add: silent_def)
qed

text \<open>
  The claim as stated fails when a write before the disposal has put the run in the queue:
  the flush calls the run of the disposed effect, which reads the signal and subscribes
  again, so that the next write schedules it once more.
\<close>

theorem C5_counterexample:
  "rev (trace (after [Task 10 prog_zombie, Microtask 10,
                      Task 10 (Write 0 (VNum 2) (Return VUndef))])) =
     [ERun 0, EBody 0, ERead (Some 0) 0, ESchedule 0, EDisposed 0,
      EJob 0, ERun 0, EBody 0, ERead (Some 0) 0, ESchedule 0] \<and>
   subs (signals (after [Task 10 prog_zombie, Microtask 10,
                         Task 10 (Write 0 (VNum 2) (Return VUndef))]) 0) = [0]"
  by code_simp

theorem C5_witness:
  "subs (signals (after [Task 10 prog_subscribed]) 0) = [0] \<and>
   cleanups (effects (after [Task 10 prog_subscribed]) 0) = [0] \<and>
   result_value (disposer (exec 10) 0 (after [Task 10 prog_subscribed])) = Some () \<and>
   0 \<notin> set (subs (signals (the_state (disposer (exec 10) 0 (after [Task 10 prog_subscribed]))) 0)) \<and>
   EDisposeCleanup 0 0 \<in> set (take
      (length (trace (the_state (disposer (exec 10) 0 (after [Task 10 prog_subscribed])))) -
       length (trace (after [Task 10 prog_subscribed])))
      (trace (the_state (disposer (exec 10) 0 (after [Task 10 prog_subscribed]))))) \<and>
   inert 0 (the_state (disposer (exec 10) 0 (after [Task 10 prog_subscribed]))) \<and>
   result_value (exec 10 (Write 0 (VNum 5) (Return VUndef))
      (the_state (disposer (exec 10) 0 (after [Task 10 prog_subscribed])))) = Some VUndef \<and>
   inert 0 (the_state (exec 10 (Write 0 (VNum 5) (Return VUndef))
      (the_state (disposer (exec 10) 0 (after [Task 10 prog_subscribed]))))) \<and>
   wake_events 0 (trace (the_state (exec 10 (Write 0 (VNum 5) (Return VUndef))
      (the_state (disposer (exec 10) 0 (after [Task 10 prog_subscribed])))))) =
   wake_events 0 (trace (the_state (disposer (exec 10) 0 (after [Task 10 prog_subscribed]))))"
proof -
  let ?S = "after [Task 10 prog_subscribed]"
  let ?D = "the_state (disposer (exec 10) 0 ?S)"
  let ?W = "Write 0 (VNum 5) (Return VUndef)"
  let ?E = "the_state (exec 10 ?W ?D)"
  have dS: "drive [Task 10 prog_subscribed] init = Some ?S" by (rule afterI) code_simp
  have eS: "edges_inv ?S" by (rule drive_edges[OF edges_inv_init dS])
  have f: "subs (signals ?S 0) = [0]" "cleanups (effects ?S 0) = [0]" by code_simp+
  have rv: "result_value (disposer (exec 10) 0 ?S) = Some ()" by code_simp
  have d: "disposer (exec 10) 0 ?S = Ok () ?D" by (rule result_value_SomeD[OF rv])
  note t = C5_disposal[where st="?S" and n=10 and e=0 and st'="?D", THEN conjunct1, THEN mp,
             OF conjI[OF eS d]]
  have g: "0 < neffects ?S \<and> currentEffect ?S \<noteq> Some 0 \<and> 0 \<notin> set (queue ?D)"
    by code_simp
  have 1: "0 \<notin> set (subs (signals ?D 0))" by (rule t[THEN conjunct1, rule_format])
  have 2: "EDisposeCleanup 0 0 \<in> set (take (length (trace ?D) - length (trace ?S)) (trace ?D))"
    by (rule t[THEN conjunct2, THEN conjunct1, rule_format]) (simp only: f list.set insertI1)
  have i: "inert 0 ?D" by (rule t[THEN conjunct2, THEN conjunct2, THEN mp, OF g])
  have wv: "result_value (exec 10 ?W ?D) = Some VUndef" by code_simp
  have 3: "inert 0 ?E \<and> wake_events 0 (trace ?E) = wake_events 0 (trace ?D)"
    by (rule holds_valueD[OF C5_disposal[where e=0 and st="?D" and n=10 and p="?W",
              THEN conjunct2, THEN conjunct1, THEN mp, OF i] wv])
  show ?thesis
    by (intro conjI f rv 1 2 i wv 3[THEN conjunct1] 3[THEN conjunct2])
qed


section \<open>Computed signals (claim C8)\<close>









end
